theory Spec2Isabelle
  imports Main "HOL-Library.Char_ord" "HOL-Library.List_Lexorder" "HOL-Library.Option_ord"
    "HOL-Library.Sublist"
begin
section \<open>Post-migration 42: performer aliases and duplicate performer names\<close>

text \<open>
  A shallow embedding of \<^verbatim>\<open>pkg/sqlite/migrations/42_postmigrate.go\<close>.
  Go strings are byte sequences and are modelled as \<^typ>\<open>string\<close> (a list of 8-bit
  characters holding the UTF-8 encoding). The two tables the migration touches are lists of
  rows. Every call into the database can fail; the run carries a fault schedule that says
  which call (if any) the driver refuses, so that each \<^verbatim>\<open>if err != nil\<close> of the
  source is a branch of the model. Logging is observational and is left out.
\<close>

subsection \<open>Library functions used by the migration\<close>

text \<open>\<^verbatim>\<open>strings.ContainsRune(",/", r)\<close>: the separator test handed to FieldsFunc.\<close>

definition isDelim :: "char \<Rightarrow> bool" where
  "isDelim r = (r = CHR '','' \<or> r = CHR ''/'')"

text \<open>
  \<^verbatim>\<open>strings.FieldsFunc\<close>: the maximal runs of bytes that do not satisfy the separator
  test, in order; empty runs are not reported. The accumulator is the field being read.
  Both separators are ASCII, so splitting the UTF-8 bytes is splitting the code points.
\<close>

fun fields_from :: "(char \<Rightarrow> bool) \<Rightarrow> string \<Rightarrow> string \<Rightarrow> string list" where
  "fields_from f cur [] = (if cur = [] then [] else [cur])"
| "fields_from f cur (c # cs) =
     (if f c then (if cur = [] then fields_from f [] cs else cur # fields_from f [] cs)
      else fields_from f (cur @ [c]) cs)"

definition FieldsFunc :: "string \<Rightarrow> (char \<Rightarrow> bool) \<Rightarrow> string list" where
  "FieldsFunc s f = fields_from f [] s"

text \<open>
  \<^verbatim>\<open>strings.TrimSpace\<close> removes leading and trailing white space as defined by Unicode.
  These are the UTF-8 encodings of the code points with the White_Space property:
  U+0009..U+000D, U+0020, U+0085, U+00A0, U+1680, U+2000..U+200A, U+2028, U+2029, U+202F,
  U+205F and U+3000.
\<close>

definition white_space :: "string list" where
  "white_space =
     [[CHR 0x09], [CHR 0x0A], [CHR 0x0B], [CHR 0x0C], [CHR 0x0D], [CHR 0x20],
      [CHR 0xC2, CHR 0x85], [CHR 0xC2, CHR 0xA0], [CHR 0xE1, CHR 0x9A, CHR 0x80],
      [CHR 0xE2, CHR 0x80, CHR 0x80], [CHR 0xE2, CHR 0x80, CHR 0x81],
      [CHR 0xE2, CHR 0x80, CHR 0x82], [CHR 0xE2, CHR 0x80, CHR 0x83],
      [CHR 0xE2, CHR 0x80, CHR 0x84], [CHR 0xE2, CHR 0x80, CHR 0x85],
      [CHR 0xE2, CHR 0x80, CHR 0x86], [CHR 0xE2, CHR 0x80, CHR 0x87],
      [CHR 0xE2, CHR 0x80, CHR 0x88], [CHR 0xE2, CHR 0x80, CHR 0x89],
      [CHR 0xE2, CHR 0x80, CHR 0x8A], [CHR 0xE2, CHR 0x80, CHR 0xA8],
      [CHR 0xE2, CHR 0x80, CHR 0xA9], [CHR 0xE2, CHR 0x80, CHR 0xAF],
      [CHR 0xE2, CHR 0x81, CHR 0x9F], [CHR 0xE3, CHR 0x80, CHR 0x80]]"

text \<open>The number of bytes of the white-space code point that starts the string, 0 if none does.\<close>

definition space_width :: "string \<Rightarrow> nat" where
  "space_width s = (case find (\<lambda>w. prefix w s) white_space of None \<Rightarrow> 0 | Some w \<Rightarrow> length w)"

text \<open>The same for the code point that ends the string.\<close>

definition space_width_end :: "string \<Rightarrow> nat" where
  "space_width_end s = (case find (\<lambda>w. suffix w s) white_space of None \<Rightarrow> 0 | Some w \<Rightarrow> length w)"

function TrimLeft :: "string \<Rightarrow> string" where
  "TrimLeft s = (if space_width s = 0 then s else TrimLeft (drop (space_width s) s))"
  by pat_completeness auto

termination
proof (relation "measure length")
  fix s
  assume "space_width s \<noteq> 0"
  moreover have "space_width s \<le> length s"
    by (auto simp: space_width_def find_Some_iff prefix_def split: option.splits)
  ultimately show "(drop (space_width s) s, s) \<in> measure length" by simp
qed simp

function TrimRight :: "string \<Rightarrow> string" where
  "TrimRight s =
     (if space_width_end s = 0 then s else TrimRight (take (length s - space_width_end s) s))"
  by pat_completeness auto

termination
proof (relation "measure length")
  fix s
  assume "space_width_end s \<noteq> 0"
  moreover have "space_width_end s \<le> length s"
    by (auto simp: space_width_end_def find_Some_iff suffix_def split: option.splits)
  ultimately show "(take (length s - space_width_end s) s, s) \<in> measure length" by simp
qed simp

declare TrimLeft.simps [simp del] TrimRight.simps [simp del]

definition TrimSpace :: "string \<Rightarrow> string" where
  "TrimSpace s = TrimRight (TrimLeft s)"

text \<open>
  Modelled from the spec: \<^verbatim>\<open>stringslice.StrAppendUniques\<close> is not among the sources.
  The spec has the pieces "deduplicated preserving first-occurrence order": each value is
  appended unless the slice already holds it.
\<close>

definition StrAppendUnique :: "string list \<Rightarrow> string \<Rightarrow> string list" where
  "StrAppendUnique vs toAdd = (if toAdd \<in> set vs then vs else vs @ [toAdd])"

definition StrAppendUniques :: "string list \<Rightarrow> string list \<Rightarrow> string list" where
  "StrAppendUniques vs toAdd = foldl StrAppendUnique vs toAdd"

text \<open>
  \<^verbatim>\<open>strconv.Atoi\<close> on a 64-bit platform. \<open>parse_digits\<close> is the digit loop of
  \<^verbatim>\<open>ParseUint(s, 10, 64)\<close>: a byte that is not a decimal digit is a syntax error, and the
  value is checked against the unsigned 64-bit range before and after each digit is added.
  Atoi then takes one optional sign and checks the signed range (\<open>2 ^ 63\<close> is
  9223372036854775808). (The fast path for short
  strings computes the same value; it cannot overflow.)
\<close>

datatype num_err = ErrSyntax | ErrRange

text \<open>
  The errors of the run: a call the driver refused, \<^verbatim>\<open>sql.ErrNoRows\<close>,
  \<^verbatim>\<open>strconv.NumError{Func, Num, Err}\<close>, a unique index that the rows violate or that
  exists already, and \<^verbatim>\<open>fmt.Errorf("...: %w", err)\<close>.
\<close>

datatype error =
    DriverError
  | ErrNoRows
  | NumError string string num_err
  | ConstraintFailed string
  | IndexExists string
  | Wrapped string error

definition is_digit :: "char \<Rightarrow> bool" where
  "is_digit c = (CHR ''0'' \<le> c \<and> c \<le> CHR ''9'')"

definition digit_val :: "char \<Rightarrow> int" where
  "digit_val c = of_char c - 48"

definition maxUint64 :: int where
  "maxUint64 = 18446744073709551615"

fun parse_digits :: "int \<Rightarrow> string \<Rightarrow> num_err + int" where
  "parse_digits n [] = Inr n"
| "parse_digits n (c # cs) =
     (if \<not> is_digit c then Inl ErrSyntax
      else if n \<ge> maxUint64 div 10 + 1 then Inl ErrRange
      else if n * 10 + digit_val c > maxUint64 then Inl ErrRange
      else parse_digits (n * 10 + digit_val c) cs)"

definition Atoi :: "string \<Rightarrow> error + int" where
  "Atoi s =
     (case s of
        [] \<Rightarrow> Inl (NumError ''Atoi'' s ErrSyntax)
      | c # cs \<Rightarrow>
          let neg = (c = CHR ''-'');
              ds = (if c = CHR ''+'' \<or> c = CHR ''-'' then cs else s)
          in if ds = [] then Inl (NumError ''Atoi'' s ErrSyntax)
             else (case parse_digits 0 ds of
                     Inl k \<Rightarrow> Inl (NumError ''Atoi'' s k)
                   | Inr un \<Rightarrow>
                       if \<not> neg \<and> un \<ge> 9223372036854775808
                       then Inl (NumError ''Atoi'' s ErrRange)
                       else if neg \<and> un > 9223372036854775808
                       then Inl (NumError ''Atoi'' s ErrRange)
                       else Inr (if neg then - un else un)))"

text \<open>\<^verbatim>\<open>strconv.Itoa\<close>: the decimal digits, with a minus sign for a negative number.\<close>

fun digits10 :: "nat \<Rightarrow> string" where
  "digits10 n =
     (if n < 10 then [''0123456789'' ! n]
      else digits10 (n div 10) @ [''0123456789'' ! (n mod 10)])"

declare digits10.simps [simp del]

definition Itoa :: "int \<Rightarrow> string" where
  "Itoa i = (if i < 0 then CHR ''-'' # digits10 (nat (- i)) else digits10 (nat i))"

text \<open>Go's \<^verbatim>\<open>int\<close> is 64 bits wide here: \<^verbatim>\<open>numericDis + 1\<close> wraps around.\<close>

definition add1_int64 :: "int \<Rightarrow> int" where
  "add1_int64 n =
     (n + 1 + 9223372036854775808) mod 18446744073709551616 - 9223372036854775808"

subsection \<open>The database\<close>

record performer =
  p_id :: int
  p_name :: string
  p_disambiguation :: "string option"

record alias_row =
  a_performer_id :: int
  a_alias :: string

text \<open>
  \<open>faults\<close> is the fault schedule of the run: \<open>None\<close> when every call into the
  database is carried out, \<open>Some n\<close> when the driver carries out the next \<open>n\<close> calls
  and refuses the one after. \<open>indexes\<close> holds the names of the unique indexes installed.
\<close>

record sqldb =
  performers :: "performer list"
  performer_aliases :: "alias_row list"
  indexes :: "string list"
  faults :: "nat option"

text \<open>One call into the database, as far as the fault schedule is concerned.\<close>

definition db_call :: "sqldb \<Rightarrow> error option \<times> sqldb" where
  "db_call s =
     (case faults s of
        None \<Rightarrow> (None, s)
      | Some 0 \<Rightarrow> (Some DriverError, s\<lparr>faults := None\<rparr>)
      | Some (Suc n) \<Rightarrow> (None, s\<lparr>faults := Some n\<rparr>))"

text \<open>The statements the migration writes with.\<close>

datatype stmt =
    DeleteAliases int
  | InsertAlias int string
  | UpdateDisambiguation string int

fun apply_stmt :: "stmt \<Rightarrow> sqldb \<Rightarrow> sqldb" where
  "apply_stmt (DeleteAliases i) s =
     s\<lparr>performer_aliases := filter (\<lambda>r. a_performer_id r \<noteq> i) (performer_aliases s)\<rparr>"
| "apply_stmt (InsertAlias i a) s =
     s\<lparr>performer_aliases := performer_aliases s @ [\<lparr>a_performer_id = i, a_alias = a\<rparr>]\<rparr>"
| "apply_stmt (UpdateDisambiguation d i) s =
     s\<lparr>performers :=
         map (\<lambda>p. if p_id p = i then p\<lparr>p_disambiguation := Some d\<rparr> else p) (performers s)\<rparr>"

text \<open>
  \<^verbatim>\<open>m.db.Exec\<close>: the statement runs on the database handle itself, outside any open
  transaction, and takes effect at once.
\<close>

definition db_Exec :: "stmt \<Rightarrow> sqldb \<Rightarrow> error option \<times> sqldb" where
  "db_Exec w s =
     (case db_call s of
        (Some e, s') \<Rightarrow> (Some e, s')
      | (None, s') \<Rightarrow> (None, apply_stmt w s'))"

text \<open>\<^verbatim>\<open>m.db.Query\<close> and \<^verbatim>\<open>m.db.Get\<close>: a read on the database handle.\<close>

definition db_Query :: "(sqldb \<Rightarrow> 'a) \<Rightarrow> sqldb \<Rightarrow> (error + 'a) \<times> sqldb" where
  "db_Query q s =
     (case db_call s of
        (Some e, s') \<Rightarrow> (Inl e, s')
      | (None, s') \<Rightarrow> (Inr (q s'), s'))"

text \<open>
  Modelled from the spec: \<^verbatim>\<open>withTxn\<close> (a method of the embedded
  \<^verbatim>\<open>migrator\<close>) is not among the sources. The spec has it run its argument "inside a
  single atomic unit": it begins a transaction, runs the function on it, commits "on
  success" and "aborts that transaction" on an error, which it propagates. A transaction is
  the list of statements issued on it: committing applies them, aborting drops them.
  \<open>l\<close> stands for the variables of the caller that the function updates.
\<close>

type_synonym tx = "stmt list"

definition withTxn ::
  "(tx \<Rightarrow> 'l \<Rightarrow> sqldb \<Rightarrow> error option \<times> tx \<times> 'l \<times> sqldb) \<Rightarrow> 'l \<Rightarrow> sqldb
     \<Rightarrow> error option \<times> 'l \<times> sqldb" where
  "withTxn fn l s =
     (case db_call s of
        (Some e, s0) \<Rightarrow> (Some e, l, s0)
      | (None, s0) \<Rightarrow>
          (case fn [] l s0 of
             (Some e, t, l', s1) \<Rightarrow> (Some e, l', s1)
           | (None, t, l', s1) \<Rightarrow>
               (case db_call s1 of
                  (Some e, s2) \<Rightarrow> (Some e, l', s2)
                | (None, s2) \<Rightarrow> (None, l', fold apply_stmt t s2))))"

subsection \<open>The alias pass\<close>

definition limit :: nat where
  "limit = 1000"

text \<open>
  The page query of \<^verbatim>\<open>migrate\<close>: the rows of \<^verbatim>\<open>performer_aliases\<close>, after the
  boundary unless the boundary is 0, by ascending performer id, at most \<open>limit\<close> of them.
  \<^verbatim>\<open>ORDER BY performer_id\<close> leaves the order of rows with the same id to the database;
  here they come in the order of the table. No statement below depends on that order.
\<close>

definition select_aliases :: "int \<Rightarrow> sqldb \<Rightarrow> alias_row list" where
  "select_aliases lastID s =
     take limit
       (sort_key a_performer_id
          (if lastID \<noteq> 0 then filter (\<lambda>r. a_performer_id r > lastID) (performer_aliases s)
           else performer_aliases s))"

fun insert_aliases :: "int \<Rightarrow> string list \<Rightarrow> sqldb \<Rightarrow> error option \<times> sqldb" where
  "insert_aliases i [] s = (None, s)"
| "insert_aliases i (a # as) s =
     (case db_Exec (InsertAlias i a) s of
        (Some e, s') \<Rightarrow> (Some e, s')
      | (None, s') \<Rightarrow> insert_aliases i as s')"

definition migratePerformerAliases :: "int \<Rightarrow> string \<Rightarrow> sqldb \<Rightarrow> error option \<times> sqldb" where
  "migratePerformerAliases i aliases s =
     (let aliasList = FieldsFunc aliases isDelim
      in if length aliasList < 2 then (None, s)
         else (case db_Exec (DeleteAliases i) s of
                 (Some e, s1) \<Rightarrow> (Some e, s1)
               | (None, s1) \<Rightarrow>
                   insert_aliases i (StrAppendUniques [] (map TrimSpace aliasList)) s1))"

text \<open>
  The variables of \<^verbatim>\<open>migrate\<close> that the page function updates. \<open>count\<close> only
  counts rows for the progress log and is kept as a natural number. \<open>fetched\<close> is not a
  variable of the source: it is the history of the rows scanned so far, in order, kept so
  that one can say which rows the pass has visited.
\<close>

record alias_vars =
  lastID :: int
  count :: nat
  gotSome :: bool
  fetched :: "alias_row list"

text \<open>
  The loop over the rows of one page. The rows are those the query returned when it ran:
  the statements issued while the page is read go through another connection and do not
  change what the cursor yields. Reading a row can fail (\<^verbatim>\<open>rows.Scan\<close>, or
  \<^verbatim>\<open>rows.Next\<close> giving up, which \<^verbatim>\<open>rows.Err\<close> then reports), and so can the
  final \<^verbatim>\<open>rows.Err\<close>.
\<close>

fun alias_rows :: "alias_row list \<Rightarrow> alias_vars \<Rightarrow> sqldb \<Rightarrow> error option \<times> alias_vars \<times> sqldb" where
  "alias_rows [] v s = (case db_call s of (e, s') \<Rightarrow> (e, v, s'))"
| "alias_rows (r # rs) v s =
     (case db_call s of
        (Some e, s') \<Rightarrow> (Some e, v, s')
      | (None, s') \<Rightarrow>
          (let v' = v\<lparr>lastID := a_performer_id r, gotSome := True, count := count v + 1,
                      fetched := fetched v @ [r]\<rparr>
           in case migratePerformerAliases (a_performer_id r) (a_alias r) s' of
                (Some e, s'') \<Rightarrow> (Some e, v', s'')
              | (None, s'') \<Rightarrow> alias_rows rs v' s''))"

text \<open>The function handed to \<^verbatim>\<open>withTxn\<close>. It never touches the transaction it is given.\<close>

definition alias_page :: "tx \<Rightarrow> alias_vars \<Rightarrow> sqldb \<Rightarrow> error option \<times> tx \<times> alias_vars \<times> sqldb" where
  "alias_page t v s =
     (case db_Query (select_aliases (lastID v)) s of
        (Inl e, s') \<Rightarrow> (Some e, t, v, s')
      | (Inr rows, s') \<Rightarrow> (case alias_rows rows v s' of (e, v', s'') \<Rightarrow> (e, t, v', s'')))"

text \<open>The \<^verbatim>\<open>for\<close> loop of \<^verbatim>\<open>migrate\<close>. It need not terminate: \<open>None\<close> is a run that never returns.\<close>

partial_function (option) migrate_loop ::
  "alias_vars \<Rightarrow> sqldb \<Rightarrow> (error option \<times> alias_vars \<times> sqldb) option" where
  "migrate_loop v s =
     (case withTxn alias_page (v\<lparr>gotSome := False\<rparr>) s of
        (Some e, v', s') \<Rightarrow> Some (Some e, v', s')
      | (None, v', s') \<Rightarrow>
          if \<not> gotSome v' then Some (None, v', s') else migrate_loop v' s')"

definition migrate :: "sqldb \<Rightarrow> (error option \<times> sqldb) option" where
  "migrate s =
     map_option (\<lambda>(e, v, s'). (e, s'))
       (migrate_loop \<lparr>lastID = 0, count = 0, gotSome = False, fetched = []\<rparr> s)"

subsection \<open>The duplicate pass\<close>

text \<open>
  The page query of \<^verbatim>\<open>migrateDuplicatePerformers\<close>. \<^verbatim>\<open>id\<close> is the integer primary key
  of \<^verbatim>\<open>performers\<close>, so \<^verbatim>\<open>rowid\<close> is \<^verbatim>\<open>id\<close>.
\<close>

definition is_duplicate :: "sqldb \<Rightarrow> performer \<Rightarrow> bool" where
  "is_duplicate s p =
     (p_disambiguation p = None \<and>
      (\<exists>p2 \<in> set (performers s). p_name p = p_name p2 \<and> p_id p > p_id p2))"

definition select_duplicates :: "sqldb \<Rightarrow> (int \<times> string) list" where
  "select_duplicates s =
     map (\<lambda>p. (p_id p, p_name p))
       (take limit (sort_key p_id (filter (is_duplicate s) (performers s))))"

text \<open>
  \<^verbatim>\<open>SELECT disambiguation FROM performers WHERE name = ? ORDER BY disambiguation DESC LIMIT 1\<close>.
  The column holds text: SQLite orders NULL before every text value and text values by
  their bytes, which is the order of \<^typ>\<open>string option\<close>.
\<close>

definition select_disambiguation :: "string \<Rightarrow> sqldb \<Rightarrow> string option list" where
  "select_disambiguation name s =
     take 1 (rev (sort (map p_disambiguation (filter (\<lambda>p. p_name p = name) (performers s)))))"

text \<open>\<^verbatim>\<open>m.db.Get\<close>: the first row of the result, \<^verbatim>\<open>sql.ErrNoRows\<close> when there is none.\<close>

definition db_Get :: "(sqldb \<Rightarrow> 'a list) \<Rightarrow> sqldb \<Rightarrow> (error + 'a) \<times> sqldb" where
  "db_Get q s =
     (case db_call s of
        (Some e, s') \<Rightarrow> (Inl e, s')
      | (None, s') \<Rightarrow> (case q s' of [] \<Rightarrow> (Inl ErrNoRows, s') | x # _ \<Rightarrow> (Inr x, s')))"

definition migrateDuplicatePerformer :: "int \<Rightarrow> string \<Rightarrow> sqldb \<Rightarrow> error option \<times> sqldb" where
  "migrateDuplicatePerformer performerID name s =
     (case db_Get (select_disambiguation name) s of
        (Inl e, s1) \<Rightarrow> (Some e, s1)
      | (Inr disambiguation, s1) \<Rightarrow>
          (case (case disambiguation of
                   None \<Rightarrow> Inr 1
                 | Some str \<Rightarrow>
                     (case Atoi str of
                        Inl e \<Rightarrow> Inl e
                      | Inr numericDis \<Rightarrow> Inr (add1_int64 numericDis))) of
             Inl e \<Rightarrow> (Some e, s1)
           | Inr newDisambiguation \<Rightarrow>
               db_Exec (UpdateDisambiguation (Itoa newDisambiguation) performerID) s1))"

text \<open>
  The variables of \<^verbatim>\<open>migrateDuplicatePerformers\<close>; \<open>d_processed\<close> is the history of
  the rows handed to \<^verbatim>\<open>migrateDuplicatePerformer\<close>, which the source does not keep.
\<close>

record dup_vars =
  d_count :: nat
  d_gotSome :: bool
  d_processed :: "(int \<times> string) list"

fun dup_rows :: "(int \<times> string) list \<Rightarrow> dup_vars \<Rightarrow> sqldb \<Rightarrow> error option \<times> dup_vars \<times> sqldb" where
  "dup_rows [] v s = (case db_call s of (e, s') \<Rightarrow> (e, v, s'))"
| "dup_rows (r # rs) v s =
     (case db_call s of
        (Some e, s') \<Rightarrow> (Some e, v, s')
      | (None, s') \<Rightarrow>
          (let v' = v\<lparr>d_gotSome := True, d_count := d_count v + 1,
                      d_processed := d_processed v @ [r]\<rparr>
           in case migrateDuplicatePerformer (fst r) (snd r) s' of
                (Some e, s'') \<Rightarrow> (Some e, v', s'')
              | (None, s'') \<Rightarrow> dup_rows rs v' s''))"

definition dup_page :: "tx \<Rightarrow> dup_vars \<Rightarrow> sqldb \<Rightarrow> error option \<times> tx \<times> dup_vars \<times> sqldb" where
  "dup_page t v s =
     (case db_Query select_duplicates s of
        (Inl e, s') \<Rightarrow> (Some e, t, v, s')
      | (Inr rows, s') \<Rightarrow> (case dup_rows rows v s' of (e, v', s'') \<Rightarrow> (e, t, v', s'')))"

partial_function (option) dup_loop ::
  "dup_vars \<Rightarrow> sqldb \<Rightarrow> (error option \<times> dup_vars \<times> sqldb) option" where
  "dup_loop v s =
     (case withTxn dup_page (v\<lparr>d_gotSome := False\<rparr>) s of
        (Some e, v', s') \<Rightarrow> Some (Some e, v', s')
      | (None, v', s') \<Rightarrow>
          if \<not> d_gotSome v' then Some (None, v', s') else dup_loop v' s')"

definition migrateDuplicatePerformers :: "sqldb \<Rightarrow> (error option \<times> sqldb) option" where
  "migrateDuplicatePerformers s =
     map_option (\<lambda>(e, v, s'). (e, s'))
       (dup_loop \<lparr>d_count = 0, d_gotSome = False, d_processed = []\<rparr> s)"

subsection \<open>Schema finalization and the whole run\<close>

text \<open>
  \<^verbatim>\<open>CREATE UNIQUE INDEX name ON performers (key) WHERE cond\<close>: refused when an index of
  that name exists or when two rows that satisfy the condition agree on the key.
\<close>

definition create_unique_index ::
  "string \<Rightarrow> (performer \<Rightarrow> 'k) \<Rightarrow> (performer \<Rightarrow> bool) \<Rightarrow> sqldb \<Rightarrow> error option \<times> sqldb" where
  "create_unique_index name key cond s =
     (case db_call s of
        (Some e, s') \<Rightarrow> (Some e, s')
      | (None, s') \<Rightarrow>
          if name \<in> set (indexes s') then (Some (IndexExists name), s')
          else if \<not> distinct (map key (filter cond (performers s')))
          then (Some (ConstraintFailed name), s')
          else (None, s'\<lparr>indexes := indexes s' @ [name]\<rparr>))"

text \<open>
  Modelled from the spec: \<^verbatim>\<open>execAll\<close> (a method of the embedded \<^verbatim>\<open>migrator\<close>) is not
  among the sources. The spec has the finalizer apply "the final DDL statements" and fail
  fatally when index creation fails: the statements run in order up to the first error.
\<close>

fun execAll :: "(sqldb \<Rightarrow> error option \<times> sqldb) list \<Rightarrow> sqldb \<Rightarrow> error option \<times> sqldb" where
  "execAll [] s = (None, s)"
| "execAll (stmt # stmts) s =
     (case stmt s of
        (Some e, s') \<Rightarrow> (Some e, s')
      | (None, s') \<Rightarrow> execAll stmts s')"

definition executeSchemaChanges :: "sqldb \<Rightarrow> error option \<times> sqldb" where
  "executeSchemaChanges s =
     execAll
       [create_unique_index ''performers_name_disambiguation_unique''
          (\<lambda>p. (p_name p, p_disambiguation p)) (\<lambda>p. p_disambiguation p \<noteq> None),
        create_unique_index ''performers_name_unique''
          p_name (\<lambda>p. p_disambiguation p = None)] s"

definition post42 :: "sqldb \<Rightarrow> (error option \<times> sqldb) option" where
  "post42 s =
     (case migrate s of
        None \<Rightarrow> None
      | Some (Some e, s1) \<Rightarrow> Some (Some (Wrapped ''migrating performer aliases'' e), s1)
      | Some (None, s1) \<Rightarrow>
          (case migrateDuplicatePerformers s1 of
             None \<Rightarrow> None
           | Some (Some e, s2) \<Rightarrow> Some (Some (Wrapped ''migrating performer aliases'' e), s2)
           | Some (None, s2) \<Rightarrow>
               (case executeSchemaChanges s2 of
                  (Some e, s3) \<Rightarrow> Some (Some (Wrapped ''executing schema changes'' e), s3)
                | (None, s3) \<Rightarrow> Some (None, s3))))"

section \<open>Auxiliary definitions and example databases\<close>

subsection \<open>Views of the tables used in the proofs\<close>

text \<open>
  These functions are not in the source. They name what a statement or a query of the source
  does to a table, and occur in the lemmas that say so; the statements about the migration
  itself are about the functions above.
\<close>

text \<open>\<^verbatim>\<open>UPDATE performers SET disambiguation = d WHERE id = i\<close>, on the rows.\<close>

definition set_disambiguation :: "string \<Rightarrow> int \<Rightarrow> performer list \<Rightarrow> performer list" where
  "set_disambiguation d i ps = map (\<lambda>p. if p_id p = i then p\<lparr>p_disambiguation := Some d\<rparr> else p) ps"

text \<open>All the rows the page query matches, without the limit.\<close>

definition duplicates :: "performer list \<Rightarrow> performer list" where
  "duplicates ps =
     filter (\<lambda>p. p_disambiguation p = None \<and>
                 (\<exists>p2 \<in> set ps. p_name p = p_name p2 \<and> p_id p > p_id p2)) ps"

text \<open>What \<^verbatim>\<open>migratePerformerAliases\<close> makes of the alias table for one fetched row.\<close>

definition normalize_row :: "alias_row \<Rightarrow> alias_row list \<Rightarrow> alias_row list" where
  "normalize_row r tbl =
     (if length (FieldsFunc (a_alias r) isDelim) < 2 then tbl
      else filter (\<lambda>x. a_performer_id x \<noteq> a_performer_id r) tbl @
           map (\<lambda>a. \<lparr>a_performer_id = a_performer_id r, a_alias = a\<rparr>)
             (StrAppendUniques [] (map TrimSpace (FieldsFunc (a_alias r) isDelim))))"

text \<open>The rows after the boundary, in the order the page query reads them.\<close>

definition pending :: "int \<Rightarrow> alias_row list \<Rightarrow> alias_row list" where
  "pending b tbl = sort_key a_performer_id (filter (\<lambda>r. a_performer_id r > b) tbl)"

text \<open>Every disambiguation in the table is a text that \<^verbatim>\<open>Atoi\<close> accepts.\<close>

definition all_numeric :: "performer list \<Rightarrow> bool" where
  "all_numeric ps = (\<forall>p \<in> set ps. \<forall>d. p_disambiguation p = Some d \<longrightarrow> (\<exists>k. Atoi d = Inr k))"

subsection \<open>Example databases\<close>

text \<open>The loops are evaluated on the examples with their recursion equations.\<close>

declare migrate_loop.simps [code] dup_loop.simps [code]

text \<open>
  Scenario 3 of the spec, with one composite alias: three performers named Alice, none with
  a disambiguation.
\<close>

definition three_alices :: sqldb where
  "three_alices =
     \<lparr>performers =
        [\<lparr>p_id = 1, p_name = ''Alice'', p_disambiguation = None\<rparr>,
         \<lparr>p_id = 2, p_name = ''Alice'', p_disambiguation = None\<rparr>,
         \<lparr>p_id = 3, p_name = ''Alice'', p_disambiguation = None\<rparr>],
      performer_aliases = [\<lparr>a_performer_id = 1, a_alias = ''Ali, Al/A''\<rparr>],
      indexes = [], faults = None\<rparr>"

definition three_alices_migrated :: sqldb where
  "three_alices_migrated =
     \<lparr>performers =
        [\<lparr>p_id = 1, p_name = ''Alice'', p_disambiguation = None\<rparr>,
         \<lparr>p_id = 2, p_name = ''Alice'', p_disambiguation = Some ''1''\<rparr>,
         \<lparr>p_id = 3, p_name = ''Alice'', p_disambiguation = Some ''2''\<rparr>],
      performer_aliases =
        [\<lparr>a_performer_id = 1, a_alias = ''Ali''\<rparr>,
         \<lparr>a_performer_id = 1, a_alias = ''Al''\<rparr>,
         \<lparr>a_performer_id = 1, a_alias = ''A''\<rparr>],
      indexes = [''performers_name_disambiguation_unique'', ''performers_name_unique''],
      faults = None\<rparr>"

definition three_alices_disambiguated :: sqldb where
  "three_alices_disambiguated =
     three_alices\<lparr>performers :=
        [\<lparr>p_id = 1, p_name = ''Alice'', p_disambiguation = None\<rparr>,
         \<lparr>p_id = 2, p_name = ''Alice'', p_disambiguation = Some ''1''\<rparr>,
         \<lparr>p_id = 3, p_name = ''Alice'', p_disambiguation = Some ''2''\<rparr>]\<rparr>"

text \<open>
  Two tables that differ in the id and the name of the duplicate whose name already carries
  the disambiguation \<open>x\<close>.
\<close>

definition non_numeric_b :: sqldb where
  "non_numeric_b =
     \<lparr>performers =
        [\<lparr>p_id = 3, p_name = ''B'', p_disambiguation = Some ''x''\<rparr>,
         \<lparr>p_id = 4, p_name = ''B'', p_disambiguation = None\<rparr>],
      performer_aliases = [], indexes = [], faults = None\<rparr>"

definition non_numeric_c :: sqldb where
  "non_numeric_c =
     \<lparr>performers =
        [\<lparr>p_id = 7, p_name = ''C'', p_disambiguation = Some ''x''\<rparr>,
         \<lparr>p_id = 9, p_name = ''C'', p_disambiguation = None\<rparr>],
      performer_aliases = [], indexes = [], faults = None\<rparr>"

definition mixed_page :: sqldb where
  "mixed_page =
     \<lparr>performers =
        [\<lparr>p_id = 1, p_name = ''A'', p_disambiguation = None\<rparr>,
         \<lparr>p_id = 2, p_name = ''A'', p_disambiguation = None\<rparr>,
         \<lparr>p_id = 3, p_name = ''B'', p_disambiguation = Some ''x''\<rparr>,
         \<lparr>p_id = 4, p_name = ''B'', p_disambiguation = None\<rparr>],
      performer_aliases = [], indexes = [], faults = None\<rparr>"

definition mixed_page_aborted :: sqldb where
  "mixed_page_aborted =
     \<lparr>performers =
        [\<lparr>p_id = 1, p_name = ''A'', p_disambiguation = None\<rparr>,
         \<lparr>p_id = 2, p_name = ''A'', p_disambiguation = Some ''1''\<rparr>,
         \<lparr>p_id = 3, p_name = ''B'', p_disambiguation = Some ''x''\<rparr>,
         \<lparr>p_id = 4, p_name = ''B'', p_disambiguation = None\<rparr>],
      performer_aliases = [], indexes = [], faults = None\<rparr>"

text \<open>
  One composite alias, and a driver that carries out five calls (begin, query, scan, delete,
  first insert) and refuses the sixth, the second insert.
\<close>

definition composite_alias_faulty :: sqldb where
  "composite_alias_faulty =
     \<lparr>performers = [],
      performer_aliases = [\<lparr>a_performer_id = 1, a_alias = ''a,b''\<rparr>],
      indexes = [], faults = Some 5\<rparr>"

definition twelve_alices :: sqldb where
  "twelve_alices =
     \<lparr>performers =
        map (\<lambda>i. \<lparr>p_id = i, p_name = ''Alice'', p_disambiguation = None\<rparr>)
          [1, 2, 3, 4, 5, 6, 7, 8, 9, 10, 11, 12],
      performer_aliases = [], indexes = [], faults = None\<rparr>"

text \<open>One performer with one more alias than a page holds: \<open>a\<close>, \<open>aa\<close>, \<open>aaa\<close>, ...\<close>

definition one_performer_many_aliases :: sqldb where
  "one_performer_many_aliases =
     \<lparr>performers = [],
      performer_aliases =
        map (\<lambda>k. \<lparr>a_performer_id = 1, a_alias = replicate (Suc k) CHR ''a''\<rparr>) [0..<Suc limit],
      indexes = [], faults = None\<rparr>"

text \<open>Scenarios 1 and 2 of the spec: one composite alias and one single alias.\<close>

definition jane_and_solo :: sqldb where
  "jane_and_solo =
     \<lparr>performers = [],
      performer_aliases =
        [\<lparr>a_performer_id = 2, a_alias = ''Solo''\<rparr>,
         \<lparr>a_performer_id = 1, a_alias = ''Jane Doe, J. Doe / JD''\<rparr>],
      indexes = [], faults = None\<rparr>"

definition blank_piece :: sqldb where
  "blank_piece =
     \<lparr>performers = [], performer_aliases = [\<lparr>a_performer_id = 1, a_alias = ''a, ''\<rparr>],
      indexes = [], faults = None\<rparr>"

definition zero_id_alias :: sqldb where
  "zero_id_alias =
     \<lparr>performers = [], performer_aliases = [\<lparr>a_performer_id = 0, a_alias = ''x''\<rparr>],
      indexes = [], faults = None\<rparr>"

section \<open>Properties of the migration\<close>

subsection \<open>Calls that are carried out\<close>

lemma db_call_ok: "faults s = None \<Longrightarrow> db_call s = (None, s)"
  by (simp add: db_call_def)

lemma faults_apply_stmt: "faults (apply_stmt w s) = faults s"
  by (cases w) simp_all

lemma db_Exec_ok: "faults s = None \<Longrightarrow> db_Exec w s = (None, apply_stmt w s)"
  by (simp add: db_Exec_def db_call_ok)

lemma db_Query_ok: "faults s = None \<Longrightarrow> db_Query q s = (Inr (q s), s)"
  by (simp add: db_Query_def db_call_ok)

subsection \<open>What a pass leaves alone\<close>

text \<open>
  A view \<open>g\<close> of the database that ignores the fault schedule is kept by every call; one that
  also ignores the alias statements is kept by the alias pass.
\<close>

lemma db_call_view:
  assumes "\<And>s f. g (s\<lparr>faults := f\<rparr>) = g s" and "db_call s = (e, s')"
  shows "g s' = g s"
  using assms by (auto simp: db_call_def split: option.splits nat.splits)

lemma db_Exec_view:
  assumes "\<And>s f. g (s\<lparr>faults := f\<rparr>) = g s" and "\<And>s. g (apply_stmt w s) = g s"
    and "db_Exec w s = (e, s')"
  shows "g s' = g s"
proof -
  obtain e0 s0 where c: "db_call s = (e0, s0)" by (cases "db_call s")
  have "g s0 = g s" by (rule db_call_view [of g, OF assms(1) c])
  with c assms(2,3) show ?thesis
    by (auto simp: db_Exec_def split: option.splits)
qed

lemma insert_aliases_view:
  assumes "\<And>s f. g (s\<lparr>faults := f\<rparr>) = g s" and "\<And>i a s. g (apply_stmt (InsertAlias i a) s) = g s"
    and "insert_aliases i as s = (e, s')"
  shows "g s' = g s"
  using assms(3)
proof (induction as arbitrary: s)
  case Nil
  then show ?case by simp
next
  case (Cons a as)
  obtain e1 s1 where x: "db_Exec (InsertAlias i a) s = (e1, s1)" by (cases "db_Exec (InsertAlias i a) s")
  have g1: "g s1 = g s" by (rule db_Exec_view [of g, OF assms(1,2) x])
  show ?case
  proof (cases e1)
    case None
    with Cons.prems x have "insert_aliases i as s1 = (e, s')" by simp
    then show ?thesis using Cons.IH g1 by simp
  next
    case (Some a)
    with Cons.prems x g1 show ?thesis by simp
  qed
qed

lemma migratePerformerAliases_view:
  assumes "\<And>s f. g (s\<lparr>faults := f\<rparr>) = g s"
    and "\<And>i a s. g (apply_stmt (InsertAlias i a) s) = g s"
    and "\<And>i s. g (apply_stmt (DeleteAliases i) s) = g s"
    and "migratePerformerAliases i raw s = (e, s')"
  shows "g s' = g s"
proof (cases "length (FieldsFunc raw isDelim) < 2")
  case True
  with assms(4) show ?thesis by (simp add: migratePerformerAliases_def)
next
  case False
  obtain e1 s1 where x: "db_Exec (DeleteAliases i) s = (e1, s1)" by (cases "db_Exec (DeleteAliases i) s")
  have g1: "g s1 = g s" by (rule db_Exec_view [of g, OF assms(1,3) x])
  show ?thesis
  proof (cases e1)
    case None
    with False assms(4) x
    have "insert_aliases i (StrAppendUniques [] (map TrimSpace (FieldsFunc raw isDelim))) s1 = (e, s')"
      by (simp add: migratePerformerAliases_def)
    from insert_aliases_view [of g, OF assms(1,2) this] show ?thesis using g1 by simp
  next
    case (Some a)
    with False assms(4) x g1 show ?thesis by (simp add: migratePerformerAliases_def)
  qed
qed

lemma alias_rows_view:
  assumes "\<And>s f. g (s\<lparr>faults := f\<rparr>) = g s"
    and "\<And>i a s. g (apply_stmt (InsertAlias i a) s) = g s"
    and "\<And>i s. g (apply_stmt (DeleteAliases i) s) = g s"
    and "alias_rows rows v s = (e, v', s')"
  shows "g s' = g s"
  using assms(4)
proof (induction rows arbitrary: v s)
  case Nil
  obtain e0 s0 where c: "db_call s = (e0, s0)" by (cases "db_call s")
  have "g s0 = g s" by (rule db_call_view [of g, OF assms(1) c])
  with Nil c show ?case by simp
next
  case (Cons r rs)
  obtain e0 s0 where c: "db_call s = (e0, s0)" by (cases "db_call s")
  have g0: "g s0 = g s" by (rule db_call_view [of g, OF assms(1) c])
  show ?case
  proof (cases e0)
    case (Some a)
    with Cons.prems c g0 show ?thesis by simp
  next
    case None
    obtain e1 s1 where m: "migratePerformerAliases (a_performer_id r) (a_alias r) s0 = (e1, s1)"
      by (cases "migratePerformerAliases (a_performer_id r) (a_alias r) s0")
    have g1: "g s1 = g s0"
      by (rule migratePerformerAliases_view [of g, OF assms(1,2,3) m])
    show ?thesis
    proof (cases e1)
      case (Some a)
      with None Cons.prems c m g0 g1 show ?thesis by (simp add: Let_def)
    next
      case n1: None
      with None Cons.prems c m obtain v1 where "alias_rows rs v1 s1 = (e, v', s')"
        by (simp add: Let_def)
      then show ?thesis using Cons.IH g0 g1 by simp
    qed
  qed
qed

lemma alias_page_tx: "alias_page t v s = (e, t', v', s') \<Longrightarrow> t' = t"
  by (auto simp: alias_page_def split: prod.splits sum.splits)

lemma alias_page_view:
  assumes "\<And>s f. g (s\<lparr>faults := f\<rparr>) = g s"
    and "\<And>i a s. g (apply_stmt (InsertAlias i a) s) = g s"
    and "\<And>i s. g (apply_stmt (DeleteAliases i) s) = g s"
    and "alias_page t v s = (e, t', v', s')"
  shows "g s' = g s"
proof -
  obtain e0 s0 where c: "db_call s = (e0, s0)" by (cases "db_call s")
  have g0: "g s0 = g s" by (rule db_call_view [of g, OF assms(1) c])
  show ?thesis
  proof (cases e0)
    case (Some a)
    with assms(4) c g0 show ?thesis by (simp add: alias_page_def db_Query_def)
  next
    case None
    with assms(4) c have "alias_rows (select_aliases (lastID v) s0) v s0 = (e, v', s')"
      by (simp add: alias_page_def db_Query_def split: prod.splits)
    from alias_rows_view [of g, OF assms(1,2,3) this] show ?thesis using g0 by simp
  qed
qed

text \<open>A page function that issues nothing on its transaction: the commit has nothing to apply.\<close>

lemma withTxn_view:
  assumes "\<And>s f. g (s\<lparr>faults := f\<rparr>) = g s"
    and "\<And>t v s e t' v' s'. fn t v s = (e, t', v', s') \<Longrightarrow> t' = t \<and> g s' = g s"
    and "withTxn fn v s = (e, v', s')"
  shows "g s' = g s"
proof -
  obtain e0 s0 where c: "db_call s = (e0, s0)" by (cases "db_call s")
  have g0: "g s0 = g s" by (rule db_call_view [of g, OF assms(1) c])
  show ?thesis
  proof (cases e0)
    case (Some a)
    with assms(3) c g0 show ?thesis by (simp add: withTxn_def)
  next
    case None
    obtain e1 t1 v1 s1 where f: "fn [] v s0 = (e1, t1, v1, s1)" by (cases "fn [] v s0")
    from assms(2) [OF f] have t1: "t1 = []" and g1: "g s1 = g s0" by simp_all
    show ?thesis
    proof (cases e1)
      case (Some a)
      with None assms(3) c f g0 g1 show ?thesis by (simp add: withTxn_def)
    next
      case n1: None
      obtain e2 s2 where c2: "db_call s1 = (e2, s2)" by (cases "db_call s1")
      have g2: "g s2 = g s1" by (rule db_call_view [of g, OF assms(1) c2])
      from None n1 assms(3) c f c2 t1 have "s' = s2"
        by (cases e2) (simp_all add: withTxn_def)
      with g0 g1 g2 show ?thesis by simp
    qed
  qed
qed

lemma migrate_loop_view:
  assumes "\<And>s f. g (s\<lparr>faults := f\<rparr>) = g s"
    and "\<And>i a s. g (apply_stmt (InsertAlias i a) s) = g s"
    and "\<And>i s. g (apply_stmt (DeleteAliases i) s) = g s"
    and "migrate_loop v s = Some (e, v', s')"
  shows "g s' = g s"
proof -
  have page: "t' = t \<and> g s' = g s" if "alias_page t v s = (e, t', v', s')" for t v s e t' v' s'
    using alias_page_tx [OF that] alias_page_view [of g, OF assms(1,2,3) that] by simp
  have "g (snd (snd r)) = g s" if "migrate_loop v s = Some r" for r
  proof (rule migrate_loop.raw_induct [where P = "\<lambda>v s r. g (snd (snd r)) = g s", OF _ that])
    fix loop v s r
    assume IH: "\<And>v s r. loop v s = Some r \<Longrightarrow> g (snd (snd r)) = g s"
      and body: "(case withTxn alias_page (v\<lparr>gotSome := False\<rparr>) s of
          (None, v', s') \<Rightarrow> if \<not> gotSome v' then Some (None, v', s') else loop v' s'
        | (Some e, v', s') \<Rightarrow> Some (Some e, v', s')) = Some r"
    obtain e1 v1 s1 where w: "withTxn alias_page (v\<lparr>gotSome := False\<rparr>) s = (e1, v1, s1)"
      by (cases "withTxn alias_page (v\<lparr>gotSome := False\<rparr>) s")
    have g1: "g s1 = g s"
      by (rule withTxn_view [of g alias_page, OF assms(1) page w])
    show "g (snd (snd r)) = g s"
    proof (cases "e1 = None \<and> gotSome v1")
      case True
      with body w have "loop v1 s1 = Some r" by simp
      then show ?thesis using IH g1 by simp
    next
      case False
      with body w have "r = (e1, v1, s1)" by (cases e1) (simp_all split: if_splits)
      with g1 show ?thesis by simp
    qed
  qed
  from this [of "(e, v', s')"] assms(4) show ?thesis by simp
qed

lemma migrate_view:
  assumes "\<And>s f. g (s\<lparr>faults := f\<rparr>) = g s"
    and "\<And>i a s. g (apply_stmt (InsertAlias i a) s) = g s"
    and "\<And>i s. g (apply_stmt (DeleteAliases i) s) = g s"
    and "migrate s = Some (e, s')"
  shows "g s' = g s"
  using assms(4) migrate_loop_view [of g, OF assms(1,2,3)]
  by (auto simp: migrate_def)

lemma migrate_indexes: "migrate s = Some (e, s') \<Longrightarrow> indexes s' = indexes s"
  by (rule migrate_view [of indexes]) simp_all

lemma migrate_performers: "migrate s = Some (e, s') \<Longrightarrow> performers s' = performers s"
  by (rule migrate_view [of performers]) simp_all

text \<open>The same for the duplicate pass and a view that ignores its one statement.\<close>

lemma migrateDuplicatePerformer_view:
  assumes "\<And>s f. g (s\<lparr>faults := f\<rparr>) = g s"
    and "\<And>d i s. g (apply_stmt (UpdateDisambiguation d i) s) = g s"
    and "migrateDuplicatePerformer i name s = (e, s')"
  shows "g s' = g s"
proof -
  obtain e0 s0 where c: "db_call s = (e0, s0)" by (cases "db_call s")
  have g0: "g s0 = g s" by (rule db_call_view [of g, OF assms(1) c])
  show ?thesis
  proof (cases e0)
    case (Some a)
    with assms(3) c g0 show ?thesis
      by (simp add: migrateDuplicatePerformer_def db_Get_def)
  next
    case None
    with assms(3) c have "s' = s0 \<or> (\<exists>d. db_Exec (UpdateDisambiguation d i) s0 = (e, s'))"
      by (auto simp: migrateDuplicatePerformer_def db_Get_def
          split: list.splits option.splits sum.splits)
    then show ?thesis
    proof
      assume "s' = s0"
      with g0 show ?thesis by simp
    next
      assume "\<exists>d. db_Exec (UpdateDisambiguation d i) s0 = (e, s')"
      then obtain d where y: "db_Exec (UpdateDisambiguation d i) s0 = (e, s')" by blast
      have "g s' = g s0" by (rule db_Exec_view [of g, OF assms(1,2) y])
      with g0 show ?thesis by simp
    qed
  qed
qed

lemma dup_rows_view:
  assumes "\<And>s f. g (s\<lparr>faults := f\<rparr>) = g s"
    and "\<And>d i s. g (apply_stmt (UpdateDisambiguation d i) s) = g s"
    and "dup_rows rows v s = (e, v', s')"
  shows "g s' = g s"
  using assms(3)
proof (induction rows arbitrary: v s)
  case Nil
  obtain e0 s0 where c: "db_call s = (e0, s0)" by (cases "db_call s")
  have "g s0 = g s" by (rule db_call_view [of g, OF assms(1) c])
  with Nil c show ?case by simp
next
  case (Cons r rs)
  obtain e0 s0 where c: "db_call s = (e0, s0)" by (cases "db_call s")
  have g0: "g s0 = g s" by (rule db_call_view [of g, OF assms(1) c])
  show ?case
  proof (cases e0)
    case (Some a)
    with Cons.prems c g0 show ?thesis by simp
  next
    case None
    obtain e1 s1 where m: "migrateDuplicatePerformer (fst r) (snd r) s0 = (e1, s1)"
      by (cases "migrateDuplicatePerformer (fst r) (snd r) s0")
    have g1: "g s1 = g s0"
      by (rule migrateDuplicatePerformer_view [of g, OF assms(1,2) m])
    show ?thesis
    proof (cases e1)
      case (Some a)
      with None Cons.prems c m g0 g1 show ?thesis by (simp add: Let_def)
    next
      case n1: None
      with None Cons.prems c m obtain v1 where "dup_rows rs v1 s1 = (e, v', s')"
        by (simp add: Let_def)
      from Cons.IH [OF this] show ?thesis using g0 g1 by simp
    qed
  qed
qed

lemma dup_page_tx: "dup_page t v s = (e, t', v', s') \<Longrightarrow> t' = t"
  by (auto simp: dup_page_def split: prod.splits sum.splits)

lemma dup_page_view:
  assumes "\<And>s f. g (s\<lparr>faults := f\<rparr>) = g s"
    and "\<And>d i s. g (apply_stmt (UpdateDisambiguation d i) s) = g s"
    and "dup_page t v s = (e, t', v', s')"
  shows "g s' = g s"
proof -
  obtain e0 s0 where c: "db_call s = (e0, s0)" by (cases "db_call s")
  have g0: "g s0 = g s" by (rule db_call_view [of g, OF assms(1) c])
  show ?thesis
  proof (cases e0)
    case (Some a)
    with assms(3) c g0 show ?thesis by (simp add: dup_page_def db_Query_def)
  next
    case None
    with assms(3) c have "dup_rows (select_duplicates s0) v s0 = (e, v', s')"
      by (simp add: dup_page_def db_Query_def split: prod.splits)
    from dup_rows_view [of g, OF assms(1,2) this] show ?thesis using g0 by simp
  qed
qed

lemma dup_loop_view:
  assumes "\<And>s f. g (s\<lparr>faults := f\<rparr>) = g s"
    and "\<And>d i s. g (apply_stmt (UpdateDisambiguation d i) s) = g s"
    and "dup_loop v s = Some (e, v', s')"
  shows "g s' = g s"
proof -
  have page: "t' = t \<and> g s' = g s" if "dup_page t v s = (e, t', v', s')" for t v s e t' v' s'
    using dup_page_tx [OF that] dup_page_view [of g, OF assms(1,2) that] by simp
  have "g (snd (snd r)) = g s" if "dup_loop v s = Some r" for r
  proof (rule dup_loop.raw_induct [where P = "\<lambda>v s r. g (snd (snd r)) = g s", OF _ that])
    fix loop v s r
    assume IH: "\<And>v s r. loop v s = Some r \<Longrightarrow> g (snd (snd r)) = g s"
      and body: "(case withTxn dup_page (v\<lparr>d_gotSome := False\<rparr>) s of
          (None, v', s') \<Rightarrow> if \<not> d_gotSome v' then Some (None, v', s') else loop v' s'
        | (Some e, v', s') \<Rightarrow> Some (Some e, v', s')) = Some r"
    obtain e1 v1 s1 where w: "withTxn dup_page (v\<lparr>d_gotSome := False\<rparr>) s = (e1, v1, s1)"
      by (cases "withTxn dup_page (v\<lparr>d_gotSome := False\<rparr>) s")
    have g1: "g s1 = g s"
      by (rule withTxn_view [of g dup_page, OF assms(1) page w])
    show "g (snd (snd r)) = g s"
    proof (cases "e1 = None \<and> d_gotSome v1")
      case True
      with body w have "loop v1 s1 = Some r" by simp
      then show ?thesis using IH g1 by simp
    next
      case False
      with body w have "r = (e1, v1, s1)" by (cases e1) (simp_all split: if_splits)
      with g1 show ?thesis by simp
    qed
  qed
  from this [of "(e, v', s')"] assms(3) show ?thesis by simp
qed

lemma migrateDuplicatePerformers_view:
  assumes "\<And>s f. g (s\<lparr>faults := f\<rparr>) = g s"
    and "\<And>d i s. g (apply_stmt (UpdateDisambiguation d i) s) = g s"
    and "migrateDuplicatePerformers s = Some (e, s')"
  shows "g s' = g s"
  using assms(3) dup_loop_view [of g, OF assms(1,2)]
  by (auto simp: migrateDuplicatePerformers_def)

lemma migrateDuplicatePerformers_indexes:
  "migrateDuplicatePerformers s = Some (e, s') \<Longrightarrow> indexes s' = indexes s"
  by (rule migrateDuplicatePerformers_view [of indexes]) simp_all

lemma migrateDuplicatePerformers_aliases:
  "migrateDuplicatePerformers s = Some (e, s') \<Longrightarrow> performer_aliases s' = performer_aliases s"
  by (rule migrateDuplicatePerformers_view [of performer_aliases]) simp_all

text \<open>The duplicate pass never changes an id or a name, and adds or removes no row.\<close>

lemma migrateDuplicatePerformers_names:
  assumes "migrateDuplicatePerformers s = Some (e, s')"
  shows "map (\<lambda>p. (p_id p, p_name p)) (performers s') = map (\<lambda>p. (p_id p, p_name p)) (performers s)"
  by (rule migrateDuplicatePerformers_view
      [of "\<lambda>s. map (\<lambda>p. (p_id p, p_name p)) (performers s)", OF _ _ assms])
    (simp_all add: comp_def)

lemma post42_three_alices: "post42 three_alices = Some (None, three_alices_migrated)"
  by code_simp

lemma executeSchemaChanges_performers:
  "executeSchemaChanges s = (e, s') \<Longrightarrow> performers s' = performers s"
  by (auto simp: executeSchemaChanges_def create_unique_index_def db_call_def
      split: prod.splits option.splits nat.splits if_splits)

text \<open>
  C7. The stages run in the order alias pass, duplicate pass, schema finalization, each once
  and each on the database the stage before it left. When a pass returns an error the run
  returns that error, wrapped, and the database is as that pass left it: nothing runs after it.
  The finalizer runs only after both passes returned without an error, so an index is
  installed only then.
\<close>

theorem post42_stages_in_order:
  assumes "post42 s = Some (e, s')"
  shows "\<exists>e1 s1. migrate s = Some (e1, s1) \<and>
    (case e1 of
       Some x \<Rightarrow> e = Some (Wrapped ''migrating performer aliases'' x) \<and> s' = s1
     | None \<Rightarrow>
         (\<exists>e2 s2. migrateDuplicatePerformers s1 = Some (e2, s2) \<and>
            (case e2 of
               Some x \<Rightarrow> e = Some (Wrapped ''migrating performer aliases'' x) \<and> s' = s2
             | None \<Rightarrow>
                 (\<exists>e3. executeSchemaChanges s2 = (e3, s') \<and>
                    e = map_option (Wrapped ''executing schema changes'') e3))))
    \<and> (indexes s' \<noteq> indexes s \<longrightarrow>
          (\<exists>s1 s2. migrate s = Some (None, s1) \<and> migrateDuplicatePerformers s1 = Some (None, s2)))"
proof -
  from assms obtain e1 s1 where m: "migrate s = Some (e1, s1)"
    by (cases "migrate s") (auto simp: post42_def)
  have i1: "indexes s1 = indexes s" by (rule migrate_indexes [OF m])
  show ?thesis
  proof (cases e1)
    case (Some x)
    with assms m i1 show ?thesis by (simp add: post42_def)
  next
    case None
    with assms m obtain e2 s2 where d: "migrateDuplicatePerformers s1 = Some (e2, s2)"
      by (cases "migrateDuplicatePerformers s1") (auto simp: post42_def)
    have i2: "indexes s2 = indexes s1" by (rule migrateDuplicatePerformers_indexes [OF d])
    show ?thesis
    proof (cases e2)
      case (Some x)
      with None assms m d i1 i2 show ?thesis by (simp add: post42_def)
    next
      case n2: None
      obtain e3 s3 where x: "executeSchemaChanges s2 = (e3, s3)"
        by (cases "executeSchemaChanges s2")
      with None n2 assms m d have "s' = s3" "e = map_option (Wrapped ''executing schema changes'') e3"
        by (cases e3; simp add: post42_def)+
      with None n2 m d x show ?thesis by simp
    qed
  qed
qed

theorem post42_stages_in_order_witness:
  "post42 three_alices = Some (None, three_alices_migrated) \<and>
   indexes three_alices_migrated \<noteq> indexes three_alices \<and>
   (\<exists>s1 s2. migrate three_alices = Some (None, s1) \<and>
      migrateDuplicatePerformers s1 = Some (None, s2))"
proof -
  have i: "indexes three_alices_migrated \<noteq> indexes three_alices"
    by (simp add: three_alices_def three_alices_migrated_def)
  from post42_stages_in_order [OF post42_three_alices] i post42_three_alices
  show ?thesis by blast
qed

subsection \<open>What one duplicate row does to the table\<close>

lemma db_call_performers: "db_call s = (e, s') \<Longrightarrow> performers s' = performers s"
  by (rule db_call_view [of performers]) simp_all

lemma db_Exec_update_performers:
  assumes "db_Exec (UpdateDisambiguation d i) s = (e, s')"
  shows "(e \<noteq> None \<and> performers s' = performers s) \<or>
         (e = None \<and> performers s' = set_disambiguation d i (performers s))"
proof -
  obtain e0 s0 where c: "db_call s = (e0, s0)" by (cases "db_call s")
  have "performers s0 = performers s" by (rule db_call_performers [OF c])
  with assms c show ?thesis
    by (cases e0) (auto simp: db_Exec_def set_disambiguation_def)
qed

text \<open>
  \<^verbatim>\<open>migrateDuplicatePerformer\<close> either fails and leaves the table as it is, or succeeds
  and has set the disambiguation of the rows with the given id to some text.
\<close>

lemma migrateDuplicatePerformer_cases:
  assumes "migrateDuplicatePerformer i name s = (e, s')"
  shows "(e \<noteq> None \<and> performers s' = performers s) \<or>
         (e = None \<and> (\<exists>d. performers s' = set_disambiguation d i (performers s)))"
proof -
  obtain e0 s0 where c: "db_call s = (e0, s0)" by (cases "db_call s")
  have p0: "performers s0 = performers s" by (rule db_call_performers [OF c])
  show ?thesis
  proof (cases e0)
    case (Some a)
    with assms c p0 show ?thesis
      by (auto simp: migrateDuplicatePerformer_def db_Get_def)
  next
    case None
    with assms c have "(e \<noteq> None \<and> s' = s0) \<or> (\<exists>d. db_Exec (UpdateDisambiguation d i) s0 = (e, s'))"
      by (auto simp: migrateDuplicatePerformer_def db_Get_def
          split: list.splits option.splits sum.splits)
    then show ?thesis
    proof
      assume "e \<noteq> None \<and> s' = s0"
      with p0 show ?thesis by simp
    next
      assume "\<exists>d. db_Exec (UpdateDisambiguation d i) s0 = (e, s')"
      then obtain d where y: "db_Exec (UpdateDisambiguation d i) s0 = (e, s')" by blast
      from db_Exec_update_performers [OF y] p0 show ?thesis by auto
    qed
  qed
qed

subsection \<open>The rows the duplicate pass still has to visit\<close>

lemma duplicates_performers: "filter (is_duplicate s) (performers s) = duplicates (performers s)"
  unfolding duplicates_def by (rule filter_cong) (simp_all add: is_duplicate_def)

lemma select_duplicates_eq:
  "select_duplicates s =
     map (\<lambda>p. (p_id p, p_name p)) (take limit (sort_key p_id (duplicates (performers s))))"
  by (simp add: select_duplicates_def duplicates_performers)

lemma earlier_set_disambiguation:
  "(\<exists>p2 \<in> set (set_disambiguation d i ps). n = p_name p2 \<and> j > p_id p2) =
   (\<exists>p2 \<in> set ps. n = p_name p2 \<and> j > p_id p2)"
  by (induction ps) (auto simp: set_disambiguation_def)

lemma duplicates_set_disambiguation:
  "duplicates (set_disambiguation d i ps) = filter (\<lambda>p. p_id p \<noteq> i) (duplicates ps)"
proof -
  have "filter (\<lambda>p. p_disambiguation p = None \<and> Q p) (set_disambiguation d i ps) =
        filter (\<lambda>p. p_id p \<noteq> i) (filter (\<lambda>p. p_disambiguation p = None \<and> Q p) ps)" for Q
    by (induction ps) (auto simp: set_disambiguation_def)
  then show ?thesis
    by (simp add: duplicates_def earlier_set_disambiguation)
qed

lemma length_duplicates_set_disambiguation:
  "length (duplicates (set_disambiguation d i ps)) \<le> length (duplicates ps)"
  by (simp add: duplicates_set_disambiguation)

lemma length_duplicates_set_disambiguation_less:
  assumes "p \<in> set (duplicates ps)" and "p_id p = i"
  shows "length (duplicates (set_disambiguation d i ps)) < length (duplicates ps)"
  using assms length_filter_less [of p "duplicates ps" "\<lambda>p. p_id p \<noteq> i"]
  by (simp add: duplicates_set_disambiguation)

lemma migrateDuplicatePerformer_duplicates:
  assumes "migrateDuplicatePerformer i name s = (e, s')"
  shows "set (duplicates (performers s')) \<subseteq> set (duplicates (performers s))"
    and "length (duplicates (performers s')) \<le> length (duplicates (performers s))"
    and "e = None \<Longrightarrow> \<forall>p \<in> set (duplicates (performers s')). p_id p \<noteq> i"
  using migrateDuplicatePerformer_cases [OF assms]
  by (auto simp: duplicates_set_disambiguation)

lemma select_duplicates_performers:
  "performers s' = performers s \<Longrightarrow> select_duplicates s' = select_duplicates s"
  by (simp add: select_duplicates_eq)

lemma select_duplicates_sub:
  assumes "r \<in> set (select_duplicates s)"
  shows "\<exists>p \<in> set (duplicates (performers s)). r = (p_id p, p_name p)"
proof -
  from assms obtain p where "p \<in> set (take limit (sort_key p_id (duplicates (performers s))))"
    and r: "r = (p_id p, p_name p)"
    by (auto simp: select_duplicates_eq)
  then have "p \<in> set (duplicates (performers s))"
    using set_take_subset [of limit "sort_key p_id (duplicates (performers s))"] by auto
  with r show ?thesis by blast
qed

lemma dup_rows_duplicates_le:
  assumes "dup_rows rows v s = (e, v', s')"
  shows "length (duplicates (performers s')) \<le> length (duplicates (performers s))"
  using assms
proof (induction rows arbitrary: v s)
  case Nil
  obtain e0 s0 where c: "db_call s = (e0, s0)" by (cases "db_call s")
  with Nil db_call_performers [OF c] show ?case by simp
next
  case (Cons r rs)
  obtain e0 s0 where c: "db_call s = (e0, s0)" by (cases "db_call s")
  note p0 = db_call_performers [OF c]
  show ?case
  proof (cases e0)
    case (Some a)
    with Cons.prems c p0 show ?thesis by simp
  next
    case None
    obtain e1 s1 where m: "migrateDuplicatePerformer (fst r) (snd r) s0 = (e1, s1)"
      by (cases "migrateDuplicatePerformer (fst r) (snd r) s0")
    note le1 = migrateDuplicatePerformer_duplicates(2) [OF m]
    show ?thesis
    proof (cases e1)
      case (Some a)
      with None Cons.prems c m le1 p0 show ?thesis by (simp add: Let_def)
    next
      case n1: None
      with None Cons.prems c m obtain v1 where "dup_rows rs v1 s1 = (e, v', s')"
        by (simp add: Let_def)
      from Cons.IH [OF this] le1 p0 show ?thesis by simp
    qed
  qed
qed

lemma dup_rows_duplicates_less:
  assumes "dup_rows (r # rs) v s = (None, v', s')"
    and "p \<in> set (duplicates (performers s))" and "p_id p = fst r"
  shows "length (duplicates (performers s')) < length (duplicates (performers s))"
proof -
  obtain e0 s0 where c: "db_call s = (e0, s0)" by (cases "db_call s")
  note p0 = db_call_performers [OF c]
  from assms(1) c have e0: "e0 = None" by (cases e0) simp_all
  obtain e1 s1 where m: "migrateDuplicatePerformer (fst r) (snd r) s0 = (e1, s1)"
    by (cases "migrateDuplicatePerformer (fst r) (snd r) s0")
  from assms(1) c e0 m have e1: "e1 = None" by (cases e1) (simp_all add: Let_def)
  with assms(1) c e0 m obtain v1 where rest: "dup_rows rs v1 s1 = (None, v', s')"
    by (simp add: Let_def)
  from migrateDuplicatePerformer_cases [OF m] e1 obtain d
    where "performers s1 = set_disambiguation d (fst r) (performers s0)" by auto
  with assms(2,3) p0 have "length (duplicates (performers s1)) < length (duplicates (performers s))"
    using length_duplicates_set_disambiguation_less [of p "performers s" "fst r" d] by simp
  with dup_rows_duplicates_le [OF rest] show ?thesis by simp
qed

lemma dup_rows_vars:
  assumes "dup_rows rows v s = (None, v', s')"
  shows "d_gotSome v' = (d_gotSome v \<or> rows \<noteq> []) \<and>
         d_processed v' = d_processed v @ rows \<and>
         d_count v' = d_count v + length rows"
  using assms
proof (induction rows arbitrary: v s)
  case Nil
  then show ?case by (auto split: prod.splits)
next
  case (Cons r rs)
  obtain e0 s0 where c: "db_call s = (e0, s0)" by (cases "db_call s")
  obtain e1 s1 where m: "migrateDuplicatePerformer (fst r) (snd r) s0 = (e1, s1)"
    by (cases "migrateDuplicatePerformer (fst r) (snd r) s0")
  from Cons.prems c m
  have "dup_rows rs (v\<lparr>d_gotSome := True, d_count := d_count v + 1,
        d_processed := d_processed v @ [r]\<rparr>) s1 = (None, v', s')"
    by (cases e0; cases e1; simp add: Let_def)
  from Cons.IH [OF this] show ?case by simp
qed

text \<open>A page of the duplicate pass that returned without an error, taken apart.\<close>

lemma withTxn_dup_page_ok:
  assumes "withTxn dup_page v s = (None, v', s')"
  shows "\<exists>s0 s1. performers s0 = performers s \<and>
           dup_rows (select_duplicates s) v s0 = (None, v', s1) \<and>
           performers s' = performers s1"
proof -
  obtain e0 sa where c0: "db_call s = (e0, sa)" by (cases "db_call s")
  from assms c0 have e0: "e0 = None" by (cases e0) (simp_all add: withTxn_def)
  obtain e1 t1 v1 sb where pg: "dup_page [] v sa = (e1, t1, v1, sb)" by (cases "dup_page [] v sa")
  from assms c0 e0 pg have e1: "e1 = None" by (cases e1) (simp_all add: withTxn_def)
  have t1: "t1 = []" by (rule dup_page_tx [OF pg])
  obtain e2 sc where c2: "db_call sb = (e2, sc)" by (cases "db_call sb")
  from assms c0 e0 pg e1 c2 have e2: "e2 = None" by (cases e2) (simp_all add: withTxn_def)
  from assms c0 e0 pg e1 c2 e2 t1 have fin: "v' = v1" "s' = sc" by (simp_all add: withTxn_def)
  obtain e3 sd where c3: "db_call sa = (e3, sd)" by (cases "db_call sa")
  from pg e1 c3 have e3: "e3 = None" by (cases e3) (simp_all add: dup_page_def db_Query_def)
  from pg e1 c3 e3 have rows: "dup_rows (select_duplicates sd) v sd = (None, v1, sb)"
    by (simp add: dup_page_def db_Query_def split: prod.splits)
  have pd: "performers sd = performers s"
    using db_call_performers [OF c0] db_call_performers [OF c3] by simp
  from rows select_duplicates_performers [OF pd] have "dup_rows (select_duplicates s) v sd = (None, v1, sb)"
    by simp
  with pd db_call_performers [OF c2] fin show ?thesis by blast
qed

lemma dup_page_shrinks:
  assumes "withTxn dup_page (v\<lparr>d_gotSome := False\<rparr>) s = (None, v', s')" and "d_gotSome v'"
  shows "length (duplicates (performers s')) < length (duplicates (performers s))"
proof -
  from withTxn_dup_page_ok [OF assms(1)] obtain s0 s1 where p0: "performers s0 = performers s"
    and rows: "dup_rows (select_duplicates s) (v\<lparr>d_gotSome := False\<rparr>) s0 = (None, v', s1)"
    and p1: "performers s' = performers s1" by blast
  from dup_rows_vars [OF rows] assms(2) obtain r rs where rr: "select_duplicates s = r # rs"
    by (cases "select_duplicates s") auto
  then have "r \<in> set (select_duplicates s)" by simp
  from select_duplicates_sub [OF this] obtain p where "p \<in> set (duplicates (performers s))"
    and "p_id p = fst r" by auto
  with rows rr p0 p1 show ?thesis
    using dup_rows_duplicates_less [of r rs "v\<lparr>d_gotSome := False\<rparr>" s0 v' s1 p] by simp
qed

text \<open>The loop of the duplicate pass returns from every state.\<close>

lemma dup_loop_returns: "\<exists>r. dup_loop v s = Some r"
proof (induction "length (duplicates (performers s))" arbitrary: v s rule: less_induct)
  case less
  obtain e1 v1 s1 where w: "withTxn dup_page (v\<lparr>d_gotSome := False\<rparr>) s = (e1, v1, s1)"
    by (cases "withTxn dup_page (v\<lparr>d_gotSome := False\<rparr>) s")
  show ?case
  proof (cases "e1 = None \<and> d_gotSome v1")
    case True
    with w dup_page_shrinks [of v s v1 s1]
    have "length (duplicates (performers s1)) < length (duplicates (performers s))" by simp
    from less [OF this] obtain r where "dup_loop v1 s1 = Some r" by blast
    with True w have "dup_loop v s = Some r" by (subst dup_loop.simps) simp
    then show ?thesis by blast
  next
    case False
    with w have "dup_loop v s = Some (e1, v1, s1)"
      by (subst dup_loop.simps) (cases e1; simp)
    then show ?thesis by blast
  qed
qed

text \<open>Every row of a page that returned without an error has a disambiguation afterwards.\<close>

lemma set_disambiguation_keeps:
  assumes "\<forall>p \<in> set ps. p_id p = j \<longrightarrow> p_disambiguation p \<noteq> None"
  shows "\<forall>p \<in> set (set_disambiguation d i ps). p_id p = j \<longrightarrow> p_disambiguation p \<noteq> None"
  using assms by (auto simp: set_disambiguation_def)

lemma set_disambiguation_sets:
  "\<forall>p \<in> set (set_disambiguation d i ps). p_id p = i \<longrightarrow> p_disambiguation p \<noteq> None"
  by (induction ps) (simp_all add: set_disambiguation_def)

lemma dup_rows_keeps:
  assumes "dup_rows rows v s = (e, v', s')"
    and "\<forall>p \<in> set (performers s). p_id p = j \<longrightarrow> p_disambiguation p \<noteq> None"
  shows "\<forall>p \<in> set (performers s'). p_id p = j \<longrightarrow> p_disambiguation p \<noteq> None"
  using assms
proof (induction rows arbitrary: v s)
  case Nil
  obtain e0 s0 where c: "db_call s = (e0, s0)" by (cases "db_call s")
  with Nil db_call_performers [OF c] show ?case by simp
next
  case (Cons r rs)
  obtain e0 s0 where c: "db_call s = (e0, s0)" by (cases "db_call s")
  note p0 = db_call_performers [OF c]
  obtain e1 s1 where m: "migrateDuplicatePerformer (fst r) (snd r) s0 = (e1, s1)"
    by (cases "migrateDuplicatePerformer (fst r) (snd r) s0")
  have k1: "\<forall>p \<in> set (performers s1). p_id p = j \<longrightarrow> p_disambiguation p \<noteq> None"
  proof (cases e1)
    case None
    with migrateDuplicatePerformer_cases [OF m] obtain d
      where "performers s1 = set_disambiguation d (fst r) (performers s0)" by auto
    with set_disambiguation_keeps [of "performers s0" j d "fst r"] Cons.prems(2) p0
    show ?thesis by simp
  next
    case (Some a)
    with migrateDuplicatePerformer_cases [OF m] Cons.prems(2) p0 show ?thesis by simp
  qed
  show ?case
  proof (cases "e0 = None \<and> e1 = None")
    case True
    with Cons.prems(1) c m obtain v1 where "dup_rows rs v1 s1 = (e, v', s')"
      by (auto simp: Let_def)
    from Cons.IH [OF this k1] show ?thesis .
  next
    case False
    with Cons.prems(1) c m have "performers s' = performers s0 \<or> performers s' = performers s1"
      by (cases e0; cases e1; simp add: Let_def)
    with Cons.prems(2) p0 k1 show ?thesis by auto
  qed
qed

lemma dup_rows_assigns:
  assumes "dup_rows rows v s = (None, v', s')" and "r \<in> set rows"
  shows "\<forall>p \<in> set (performers s'). p_id p = fst r \<longrightarrow> p_disambiguation p \<noteq> None"
  using assms
proof (induction rows arbitrary: v s)
  case Nil
  then show ?case by simp
next
  case (Cons x xs)
  obtain e0 s0 where c: "db_call s = (e0, s0)" by (cases "db_call s")
  obtain e1 s1 where m: "migrateDuplicatePerformer (fst x) (snd x) s0 = (e1, s1)"
    by (cases "migrateDuplicatePerformer (fst x) (snd x) s0")
  from Cons.prems(1) c have e0: "e0 = None" by (cases e0) simp_all
  from Cons.prems(1) c m e0 have e1: "e1 = None" by (cases e1) (simp_all add: Let_def)
  note e = e0 e1
  with Cons.prems(1) c m obtain v1 where rest: "dup_rows xs v1 s1 = (None, v', s')"
    by (simp add: Let_def)
  show ?case
  proof (cases "r = x")
    case True
    from migrateDuplicatePerformer_cases [OF m] e obtain d
      where "performers s1 = set_disambiguation d (fst x) (performers s0)" by auto
    with True set_disambiguation_sets [of d "fst x" "performers s0"]
    have "\<forall>p \<in> set (performers s1). p_id p = fst r \<longrightarrow> p_disambiguation p \<noteq> None" by simp
    from dup_rows_keeps [OF rest this] show ?thesis .
  next
    case False
    with Cons.prems(2) have "r \<in> set xs" by simp
    from Cons.IH [OF rest this] show ?thesis .
  qed
qed

lemma dup_page_three_alices:
  "withTxn dup_page (\<lparr>d_count = 0, d_gotSome = False, d_processed = []\<rparr>\<lparr>d_gotSome := False\<rparr>)
     three_alices =
   (None, \<lparr>d_count = 2, d_gotSome = True, d_processed = [(2, ''Alice''), (3, ''Alice'')]\<rparr>,
    three_alices_disambiguated)"
  by code_simp

subsection \<open>Rows the duplicate pass does not touch\<close>

lemma filter_key_distinct:
  assumes "distinct (map f xs)" and "x \<in> set xs"
  shows "filter (\<lambda>y. f y = f x) xs = [x]"
  using assms
proof (induction xs)
  case Nil
  then show ?case by simp
next
  case (Cons a xs)
  show ?case
  proof (cases "x = a")
    case True
    from Cons.prems(1) have "\<forall>y \<in> set xs. f y \<noteq> f a" by (auto simp: image_iff)
    then have "filter (\<lambda>y. f y = f a) xs = []" by (simp add: filter_empty_conv)
    with True show ?thesis by simp
  next
    case False
    with Cons.prems have "x \<in> set xs" "f a \<noteq> f x" by (auto simp: image_iff)
    with Cons show ?thesis by simp
  qed
qed

lemma set_disambiguation_other:
  "i \<noteq> j \<Longrightarrow> filter (\<lambda>q. p_id q = j) (set_disambiguation d i ps) = filter (\<lambda>q. p_id q = j) ps"
  by (induction ps) (simp_all add: set_disambiguation_def)

lemma dup_rows_other:
  assumes "dup_rows rows v s = (e, v', s')" and "j \<notin> fst ` set rows"
  shows "filter (\<lambda>q. p_id q = j) (performers s') = filter (\<lambda>q. p_id q = j) (performers s)"
  using assms
proof (induction rows arbitrary: v s)
  case Nil
  obtain e0 s0 where c: "db_call s = (e0, s0)" by (cases "db_call s")
  with Nil db_call_performers [OF c] show ?case by simp
next
  case (Cons r rs)
  obtain e0 s0 where c: "db_call s = (e0, s0)" by (cases "db_call s")
  note p0 = db_call_performers [OF c]
  obtain e1 s1 where m: "migrateDuplicatePerformer (fst r) (snd r) s0 = (e1, s1)"
    by (cases "migrateDuplicatePerformer (fst r) (snd r) s0")
  from Cons.prems(2) have ne: "fst r \<noteq> j" and rest: "j \<notin> fst ` set rs" by auto
  have k1: "filter (\<lambda>q. p_id q = j) (performers s1) = filter (\<lambda>q. p_id q = j) (performers s)"
  proof (cases e1)
    case None
    with migrateDuplicatePerformer_cases [OF m] obtain d
      where "performers s1 = set_disambiguation d (fst r) (performers s0)" by auto
    with set_disambiguation_other [OF ne] p0 show ?thesis by simp
  next
    case (Some a)
    with migrateDuplicatePerformer_cases [OF m] p0 show ?thesis by simp
  qed
  show ?case
  proof (cases "e0 = None \<and> e1 = None")
    case True
    with Cons.prems(1) c m obtain v1 where "dup_rows rs v1 s1 = (e, v', s')"
      by (auto simp: Let_def)
    from Cons.IH [OF this rest] k1 show ?thesis by simp
  next
    case False
    with Cons.prems(1) c m have "performers s' = performers s0 \<or> performers s' = performers s1"
      by (cases e0; cases e1; simp add: Let_def)
    with p0 k1 show ?thesis by auto
  qed
qed

lemma dup_rows_processed:
  assumes "dup_rows rows v s = (e, v', s')"
  shows "set (d_processed v') \<subseteq> set (d_processed v) \<union> set rows"
  using assms
proof (induction rows arbitrary: v s)
  case Nil
  then show ?case by (auto split: prod.splits)
next
  case (Cons r rs)
  obtain e0 s0 where c: "db_call s = (e0, s0)" by (cases "db_call s")
  obtain e1 s1 where m: "migrateDuplicatePerformer (fst r) (snd r) s0 = (e1, s1)"
    by (cases "migrateDuplicatePerformer (fst r) (snd r) s0")
  show ?case
  proof (cases "e0 = None \<and> e1 = None")
    case True
    with Cons.prems(1) c m
    have "dup_rows rs (v\<lparr>d_gotSome := True, d_count := d_count v + 1,
        d_processed := d_processed v @ [r]\<rparr>) s1 = (e, v', s')"
      by (auto simp: Let_def)
    from Cons.IH [OF this] show ?thesis by auto
  next
    case False
    with Cons.prems(1) c m have "d_processed v' = d_processed v \<or> d_processed v' = d_processed v @ [r]"
      by (cases e0; cases e1; auto simp: Let_def)
    then show ?thesis by auto
  qed
qed

text \<open>A page of the duplicate pass, whatever it returned.\<close>

lemma withTxn_dup_page_any:
  assumes "withTxn dup_page v s = (e, v', s')"
  shows "(v' = v \<and> performers s' = performers s) \<or>
         (\<exists>s0 s1 e'. performers s0 = performers s \<and>
            dup_rows (select_duplicates s) v s0 = (e', v', s1) \<and> performers s' = performers s1)"
proof -
  obtain e0 sa where c0: "db_call s = (e0, sa)" by (cases "db_call s")
  note pa = db_call_performers [OF c0]
  show ?thesis
  proof (cases e0)
    case (Some a)
    with assms c0 pa show ?thesis by (simp add: withTxn_def)
  next
    case None
    obtain e3 sd where c3: "db_call sa = (e3, sd)" by (cases "db_call sa")
    note pd = db_call_performers [OF c3]
    show ?thesis
    proof (cases e3)
      case (Some a)
      with assms c0 None c3 pa pd show ?thesis
        by (simp add: withTxn_def dup_page_def db_Query_def)
    next
      case n3: None
      obtain e1 v1 sb where rows: "dup_rows (select_duplicates sd) v sd = (e1, v1, sb)"
        by (cases "dup_rows (select_duplicates sd) v sd")
      have sel: "select_duplicates sd = select_duplicates s"
        by (rule select_duplicates_performers) (simp add: pa pd)
      obtain e2 sc where c2: "db_call sb = (e2, sc)" by (cases "db_call sb")
      note pc = db_call_performers [OF c2]
      from assms c0 None c3 n3 rows c2 have "v' = v1 \<and> (s' = sb \<or> s' = sc)"
        by (cases e1; cases e2; simp add: withTxn_def dup_page_def db_Query_def)
      with rows sel pa pd pc show ?thesis by auto
    qed
  qed
qed

lemma earlier_by_names:
  "(\<exists>p2 \<in> set ps. n = p_name p2 \<and> j > p_id p2) =
   (\<exists>x \<in> set (map (\<lambda>q. (p_id q, p_name q)) ps). n = snd x \<and> j > fst x)"
  by (induction ps) auto

lemma withTxn_dup_page_names:
  assumes "withTxn dup_page v s = (e, v', s')"
  shows "map (\<lambda>q. (p_id q, p_name q)) (performers s') = map (\<lambda>q. (p_id q, p_name q)) (performers s)"
proof -
  let ?g = "\<lambda>s. map (\<lambda>q. (p_id q, p_name q)) (performers s)"
  have f: "?g (s\<lparr>faults := f\<rparr>) = ?g s" for s :: sqldb and f by simp
  have u: "?g (apply_stmt (UpdateDisambiguation d i) s) = ?g s" for d i s
    by (simp add: comp_def)
  have page: "t' = t \<and> ?g s' = ?g s" if "dup_page t v s = (e, t', v', s')" for t v s e t' v' s'
    using dup_page_tx [OF that] dup_page_view [of ?g, OF f u that] by simp
  show ?thesis
    by (rule withTxn_view [of ?g dup_page, OF f page assms])
qed

lemma dup_page_canonical:
  assumes w: "withTxn dup_page v s = (e, v', s')"
    and one: "filter (\<lambda>q. p_id q = p_id p) (performers s) = [p]"
    and canon: "\<not> (\<exists>p2 \<in> set (performers s). p_name p = p_name p2 \<and> p_id p > p_id p2)"
    and np: "p_id p \<notin> fst ` set (d_processed v)"
  shows "p_id p \<notin> fst ` set (d_processed v') \<and>
         filter (\<lambda>q. p_id q = p_id p) (performers s') = [p]"
proof -
  have sel: "p_id p \<notin> fst ` set (select_duplicates s)"
  proof
    assume "p_id p \<in> fst ` set (select_duplicates s)"
    then obtain r where r: "r \<in> set (select_duplicates s)" and i: "fst r = p_id p" by auto
    from select_duplicates_sub [OF r] obtain q where q: "q \<in> set (duplicates (performers s))"
      and rq: "r = (p_id q, p_name q)" by blast
    from q have qs: "q \<in> set (performers s)" by (simp add: duplicates_def)
    from rq i have "p_id q = p_id p" by simp
    with qs have "q \<in> set (filter (\<lambda>q. p_id q = p_id p) (performers s))" by simp
    with one have "q = p" by simp
    with q canon show False by (simp add: duplicates_def)
  qed
  from withTxn_dup_page_any [OF w] show ?thesis
  proof
    assume "v' = v \<and> performers s' = performers s"
    with one np show ?thesis by simp
  next
    assume "\<exists>s0 s1 e'. performers s0 = performers s \<and>
            dup_rows (select_duplicates s) v s0 = (e', v', s1) \<and> performers s' = performers s1"
    then obtain s0 s1 e' where p0: "performers s0 = performers s"
      and rows: "dup_rows (select_duplicates s) v s0 = (e', v', s1)"
      and p1: "performers s' = performers s1" by blast
    from dup_rows_processed [OF rows] np sel have "p_id p \<notin> fst ` set (d_processed v')" by auto
    moreover from dup_rows_other [OF rows sel] p0 p1 one
    have "filter (\<lambda>q. p_id q = p_id p) (performers s') = [p]" by simp
    ultimately show ?thesis by simp
  qed
qed

lemma dup_loop_canonical:
  assumes run: "dup_loop v s = Some (e, v', s')"
    and one: "filter (\<lambda>q. p_id q = p_id p) (performers s) = [p]"
    and canon: "\<not> (\<exists>p2 \<in> set (performers s). p_name p = p_name p2 \<and> p_id p > p_id p2)"
    and np: "p_id p \<notin> fst ` set (d_processed v)"
  shows "p_id p \<notin> fst ` set (d_processed v') \<and>
         filter (\<lambda>q. p_id q = p_id p) (performers s') = [p]"
proof -
  let ?inv = "\<lambda>v s. filter (\<lambda>q. p_id q = p_id p) (performers s) = [p] \<and>
      \<not> (\<exists>p2 \<in> set (performers s). p_name p = p_name p2 \<and> p_id p > p_id p2) \<and>
      p_id p \<notin> fst ` set (d_processed v)"
  let ?P = "\<lambda>v s r. ?inv v s \<longrightarrow> p_id p \<notin> fst ` set (d_processed (fst (snd r))) \<and>
         filter (\<lambda>q. p_id q = p_id p) (performers (snd (snd r))) = [p]"
  have "?P v s r" if "dup_loop v s = Some r" for r
  proof (rule dup_loop.raw_induct [where P = ?P, OF _ that])
    fix loop v s r
    assume IH: "\<And>v s r. loop v s = Some r \<Longrightarrow> ?P v s r"
      and body: "(case withTxn dup_page (v\<lparr>d_gotSome := False\<rparr>) s of
          (None, v', s') \<Rightarrow> if \<not> d_gotSome v' then Some (None, v', s') else loop v' s'
        | (Some e, v', s') \<Rightarrow> Some (Some e, v', s')) = Some r"
    obtain e1 v1 s1 where w: "withTxn dup_page (v\<lparr>d_gotSome := False\<rparr>) s = (e1, v1, s1)"
      by (cases "withTxn dup_page (v\<lparr>d_gotSome := False\<rparr>) s")
    show "?P v s r"
    proof
      assume inv: "?inv v s"
      then have np': "p_id p \<notin> fst ` set (d_processed (v\<lparr>d_gotSome := False\<rparr>))" by simp
      from inv have one: "filter (\<lambda>q. p_id q = p_id p) (performers s) = [p]"
        and canon: "\<not> (\<exists>p2 \<in> set (performers s). p_name p = p_name p2 \<and> p_id p > p_id p2)"
        by simp_all
      note step = dup_page_canonical [OF w one canon np']
      have "(\<exists>p2 \<in> set (performers s1). p_name p = p_name p2 \<and> p_id p > p_id p2) =
            (\<exists>p2 \<in> set (performers s). p_name p = p_name p2 \<and> p_id p > p_id p2)"
        unfolding earlier_by_names withTxn_dup_page_names [OF w] by (rule refl)
      with inv
      have canon1: "\<not> (\<exists>p2 \<in> set (performers s1). p_name p = p_name p2 \<and> p_id p > p_id p2)"
        by simp
      show "p_id p \<notin> fst ` set (d_processed (fst (snd r))) \<and>
         filter (\<lambda>q. p_id q = p_id p) (performers (snd (snd r))) = [p]"
      proof (cases "e1 = None \<and> d_gotSome v1")
        case True
        with body w have "loop v1 s1 = Some r" by simp
        from IH [OF this] step canon1 show ?thesis by simp
      next
        case False
        with body w have "r = (e1, v1, s1)" by (cases e1) (simp_all split: if_splits)
        with step show ?thesis by simp
      qed
    qed
  qed
  from this [OF run] one canon np show ?thesis by simp
qed

text \<open>
  C8. A performer with no performer of the same name and a smaller id is never handed to
  \<^verbatim>\<open>migrateDuplicatePerformer\<close> by the duplicate pass, and its row is the same after the
  pass as before, whatever the pass returns; so a null disambiguation stays null. Ids are
  the primary key of the table: no two rows share one.
\<close>

theorem canonical_row_untouched:
  assumes "distinct (map p_id (performers s))"
    and "p \<in> set (performers s)"
    and "\<not> (\<exists>p2 \<in> set (performers s). p_name p = p_name p2 \<and> p_id p > p_id p2)"
  shows "\<exists>e v' s'. dup_loop \<lparr>d_count = 0, d_gotSome = False, d_processed = []\<rparr> s = Some (e, v', s') \<and>
           migrateDuplicatePerformers s = Some (e, s') \<and>
           p_id p \<notin> fst ` set (d_processed v') \<and>
           filter (\<lambda>q. p_id q = p_id p) (performers s') = [p]"
proof -
  let ?v = "\<lparr>d_count = 0, d_gotSome = False, d_processed = []\<rparr>"
  from dup_loop_returns [of ?v s] obtain e v' s' where run: "dup_loop ?v s = Some (e, v', s')"
    by (metis prod_cases3)
  then have m: "migrateDuplicatePerformers s = Some (e, s')"
    by (simp add: migrateDuplicatePerformers_def)
  from filter_key_distinct [OF assms(1,2)]
  have one: "filter (\<lambda>q. p_id q = p_id p) (performers s) = [p]" .
  from dup_loop_canonical [OF run one assms(3)] run m show ?thesis by simp
qed

theorem canonical_row_untouched_witness:
  "\<exists>e v' s'. dup_loop \<lparr>d_count = 0, d_gotSome = False, d_processed = []\<rparr> three_alices = Some (e, v', s') \<and>
     migrateDuplicatePerformers three_alices = Some (e, s') \<and>
     (1::int) \<notin> fst ` set (d_processed v') \<and>
     filter (\<lambda>q. p_id q = 1) (performers s') = [\<lparr>p_id = 1, p_name = ''Alice'', p_disambiguation = None\<rparr>]"
  using canonical_row_untouched [of three_alices "\<lparr>p_id = 1, p_name = ''Alice'', p_disambiguation = None\<rparr>"]
  by (simp add: three_alices_def)

subsection \<open>Schema finalization\<close>

lemma create_unique_index_ok:
  assumes "create_unique_index name key cond s = (None, s')"
  shows "distinct (map key (filter cond (performers s))) \<and> performers s' = performers s"
proof -
  obtain e0 s0 where c: "db_call s = (e0, s0)" by (cases "db_call s")
  note p0 = db_call_performers [OF c]
  from assms c have "e0 = None" by (cases e0) (simp_all add: create_unique_index_def)
  with assms c p0 show ?thesis
    by (simp add: create_unique_index_def split: if_splits) auto
qed

lemma executeSchemaChanges_ok:
  assumes "executeSchemaChanges s = (None, s')"
  shows "distinct (map (\<lambda>p. (p_name p, p_disambiguation p))
            (filter (\<lambda>p. p_disambiguation p \<noteq> None) (performers s')))"
    and "distinct (map p_name (filter (\<lambda>p. p_disambiguation p = None) (performers s')))"
proof -
  let ?i1 = "create_unique_index ''performers_name_disambiguation_unique''
          (\<lambda>p. (p_name p, p_disambiguation p)) (\<lambda>p. p_disambiguation p \<noteq> None)"
  let ?i2 = "create_unique_index ''performers_name_unique''
          p_name (\<lambda>p. p_disambiguation p = None)"
  obtain e1 s1 where a: "?i1 s = (e1, s1)" by (cases "?i1 s")
  from assms a have e1: "e1 = None" by (cases e1) (simp_all add: executeSchemaChanges_def)
  obtain e2 s2 where b: "?i2 s1 = (e2, s2)" by (cases "?i2 s1")
  from assms a e1 b have e2: "e2 = None" and s2: "s2 = s'"
    by (cases e2; simp add: executeSchemaChanges_def)+
  from create_unique_index_ok [OF a [unfolded e1]] create_unique_index_ok [OF b [unfolded e2 s2]]
  show "distinct (map (\<lambda>p. (p_name p, p_disambiguation p))
            (filter (\<lambda>p. p_disambiguation p \<noteq> None) (performers s')))"
    and "distinct (map p_name (filter (\<lambda>p. p_disambiguation p = None) (performers s')))"
    by simp_all
qed

lemma distinct_map_filter_nth:
  assumes "distinct (map f (filter P xs))"
    and "i < length xs" and "j < length xs" and "i \<noteq> j" and "P (xs ! i)" and "P (xs ! j)"
  shows "f (xs ! i) \<noteq> f (xs ! j)"
  using assms
proof (induction xs arbitrary: i j)
  case Nil
  then show ?case by simp
next
  case (Cons x xs)
  have tail: "distinct (map f (filter P xs))" using Cons.prems(1) by (simp split: if_splits)
  have head: "f x \<noteq> f (xs ! k)" if "P x" and "k < length xs" and "P (xs ! k)" for k
  proof -
    from that have "xs ! k \<in> set (filter P xs)" by simp
    then have "f (xs ! k) \<in> set (map f (filter P xs))" by (simp del: set_filter)
    with Cons.prems(1) that(1) show ?thesis by auto
  qed
  show ?case
  proof (cases i)
    case 0
    with Cons.prems obtain j' where j: "j = Suc j'" by (cases j) auto
    with 0 Cons.prems head [of j'] show ?thesis by simp
  next
    case (Suc i')
    show ?thesis
    proof (cases j)
      case 0
      with Suc Cons.prems head [of i'] show ?thesis by auto
    next
      case (Suc j')
      with \<open>i = Suc i'\<close> Cons.prems Cons.IH [OF tail, of i' j'] show ?thesis by simp
    qed
  qed
qed

text \<open>
  C4. After a run of the migration that returned without an error, no two rows of
  \<^verbatim>\<open>performers\<close> with a disambiguation agree on name and disambiguation, and no two rows
  without one agree on the name.
\<close>

theorem unique_after_successful_run:
  assumes "post42 s = Some (None, s')"
  shows "(\<forall>i j. i < length (performers s') \<longrightarrow> j < length (performers s') \<longrightarrow> i \<noteq> j \<longrightarrow>
            p_disambiguation (performers s' ! i) \<noteq> None \<longrightarrow>
            \<not> (p_name (performers s' ! i) = p_name (performers s' ! j) \<and>
               p_disambiguation (performers s' ! i) = p_disambiguation (performers s' ! j))) \<and>
         (\<forall>i j. i < length (performers s') \<longrightarrow> j < length (performers s') \<longrightarrow> i \<noteq> j \<longrightarrow>
            p_disambiguation (performers s' ! i) = None \<longrightarrow>
            p_disambiguation (performers s' ! j) = None \<longrightarrow>
            p_name (performers s' ! i) \<noteq> p_name (performers s' ! j))"
proof -
  from assms obtain s1 where m: "migrate s = Some (None, s1)"
    by (auto simp: post42_def split: option.splits prod.splits)
  with assms obtain s2 where d: "migrateDuplicatePerformers s1 = Some (None, s2)"
    by (auto simp: post42_def split: option.splits prod.splits)
  with assms m have x: "executeSchemaChanges s2 = (None, s')"
    by (auto simp: post42_def split: option.splits prod.splits)
  note u = executeSchemaChanges_ok [OF x]
  show ?thesis
  proof (intro conjI allI impI)
    fix i j
    assume b: "i < length (performers s')" "j < length (performers s')" "i \<noteq> j"
      and n: "p_disambiguation (performers s' ! i) \<noteq> None"
    show "\<not> (p_name (performers s' ! i) = p_name (performers s' ! j) \<and>
               p_disambiguation (performers s' ! i) = p_disambiguation (performers s' ! j))"
    proof
      assume eq: "p_name (performers s' ! i) = p_name (performers s' ! j) \<and>
               p_disambiguation (performers s' ! i) = p_disambiguation (performers s' ! j)"
      with n have "p_disambiguation (performers s' ! j) \<noteq> None" by simp
      from distinct_map_filter_nth [OF u(1) b n this] eq show False by simp
    qed
  next
    fix i j
    assume b: "i < length (performers s')" "j < length (performers s')" "i \<noteq> j"
      and n: "p_disambiguation (performers s' ! i) = None" "p_disambiguation (performers s' ! j) = None"
    from distinct_map_filter_nth [OF u(2) b n]
    show "p_name (performers s' ! i) \<noteq> p_name (performers s' ! j)" .
  qed
qed

theorem unique_after_successful_run_witness:
  "post42 three_alices = Some (None, three_alices_migrated) \<and>
   p_name (performers three_alices_migrated ! 1) = p_name (performers three_alices_migrated ! 2) \<and>
   p_disambiguation (performers three_alices_migrated ! 1) \<noteq>
     p_disambiguation (performers three_alices_migrated ! 2)"
proof -
  have l: "(1::nat) < length (performers three_alices_migrated)"
    "(2::nat) < length (performers three_alices_migrated)"
    "p_disambiguation (performers three_alices_migrated ! 1) \<noteq> None"
    "p_name (performers three_alices_migrated ! 1) = p_name (performers three_alices_migrated ! 2)"
    by (simp_all add: three_alices_migrated_def)
  from unique_after_successful_run [OF post42_three_alices] l
  have "p_disambiguation (performers three_alices_migrated ! 1) \<noteq>
     p_disambiguation (performers three_alices_migrated ! 2)"
    by (metis numeral_eq_iff one_eq_numeral_iff semiring_norm(85))
  with post42_three_alices l(4) show ?thesis by simp
qed

subsection \<open>Runs in which the driver refuses nothing\<close>

lemma db_Get_ok:
  "faults s = None \<Longrightarrow>
   db_Get q s = (case q s of [] \<Rightarrow> (Inl ErrNoRows, s) | x # _ \<Rightarrow> (Inr x, s))"
  by (simp add: db_Get_def db_call_ok)

lemma migrateDuplicatePerformer_ok:
  assumes "faults s = None"
  shows "migrateDuplicatePerformer i name s =
     (case select_disambiguation name s of
        [] \<Rightarrow> (Some ErrNoRows, s)
      | None # _ \<Rightarrow> (None, apply_stmt (UpdateDisambiguation (Itoa 1) i) s)
      | Some str # _ \<Rightarrow>
          (case Atoi str of
             Inl e \<Rightarrow> (Some e, s)
           | Inr numericDis \<Rightarrow>
               (None, apply_stmt (UpdateDisambiguation (Itoa (add1_int64 numericDis)) i) s)))"
  using assms
  by (simp add: migrateDuplicatePerformer_def db_Get_ok db_Exec_ok
      split: list.splits option.splits sum.splits)

lemma migrateDuplicatePerformer_faults:
  assumes "faults s = None" and "migrateDuplicatePerformer i name s = (e, s')"
  shows "faults s' = None"
proof -
  from assms(2) have "faults s' = faults s"
    unfolding migrateDuplicatePerformer_ok [OF assms(1)]
    by (auto split: list.splits option.splits sum.splits)
  with assms(1) show ?thesis by simp
qed

lemma dup_rows_faults:
  assumes "faults s = None" and "dup_rows rows v s = (e, v', s')"
  shows "faults s' = None"
  using assms
proof (induction rows arbitrary: v s)
  case Nil
  then show ?case by (simp add: db_call_ok)
next
  case (Cons r rs)
  obtain e1 s1 where m: "migrateDuplicatePerformer (fst r) (snd r) s = (e1, s1)"
    by (cases "migrateDuplicatePerformer (fst r) (snd r) s")
  note f1 = migrateDuplicatePerformer_faults [OF Cons.prems(1) m]
  show ?case
  proof (cases e1)
    case None
    with Cons.prems m obtain v1 where "dup_rows rs v1 s1 = (e, v', s')"
      by (simp add: db_call_ok Let_def)
    from Cons.IH [OF f1 this] show ?thesis .
  next
    case (Some a)
    with Cons.prems m f1 show ?thesis by (simp add: db_call_ok Let_def)
  qed
qed

lemma dup_rows_append:
  assumes "faults s = None" and "dup_rows pre v s = (None, v1, s1)"
  shows "dup_rows (pre @ rest) v s = dup_rows rest v1 s1"
  using assms
proof (induction pre arbitrary: v s)
  case Nil
  then show ?case by (simp add: db_call_ok)
next
  case (Cons r rs)
  obtain e1 s2 where m: "migrateDuplicatePerformer (fst r) (snd r) s = (e1, s2)"
    by (cases "migrateDuplicatePerformer (fst r) (snd r) s")
  note f2 = migrateDuplicatePerformer_faults [OF Cons.prems(1) m]
  from Cons.prems m have e1: "e1 = None" by (cases e1) (simp_all add: db_call_ok Let_def)
  let ?v = "v\<lparr>d_gotSome := True, d_count := d_count v + 1, d_processed := d_processed v @ [r]\<rparr>"
  from Cons.prems m e1 have "dup_rows rs ?v s2 = (None, v1, s1)"
    by (simp add: db_call_ok Let_def)
  from Cons.IH [OF f2 this] Cons.prems(1) m e1 show ?case
    by (simp add: db_call_ok Let_def)
qed

lemma withTxn_dup_page_no_faults:
  assumes "faults s = None"
  shows "withTxn dup_page v s = dup_rows (select_duplicates s) v s"
proof -
  obtain e1 v1 s1 where r: "dup_rows (select_duplicates s) v s = (e1, v1, s1)"
    by (cases "dup_rows (select_duplicates s) v s")
  note f1 = dup_rows_faults [OF assms r]
  from assms r f1 show ?thesis
    by (cases e1) (simp_all add: withTxn_def dup_page_def db_call_ok db_Query_ok)
qed

lemma Atoi_error:
  assumes "Atoi str = Inl err"
  shows "err = NumError ''Atoi'' str ErrSyntax \<or> err = NumError ''Atoi'' str ErrRange"
proof -
  have k: "k = ErrSyntax \<or> k = ErrRange" for k by (cases k) simp_all
  from assms show ?thesis
    using k by (auto simp: Atoi_def Let_def split: list.splits sum.splits if_splits)
qed

subsection \<open>A disambiguation that is not a number\<close>

text \<open>
  The claim has the error carry the performer's id and name. The error of the run is the
  same value for performer 4, named B, and for performer 9, named C: it holds the text that
  did not parse and the label of the stage, nothing of the performer.
\<close>

theorem error_without_performer_counterexample:
  "post42 non_numeric_b =
     Some (Some (Wrapped ''migrating performer aliases'' (NumError ''Atoi'' ''x'' ErrSyntax)),
           non_numeric_b) \<and>
   post42 non_numeric_c =
     Some (Some (Wrapped ''migrating performer aliases'' (NumError ''Atoi'' ''x'' ErrSyntax)),
           non_numeric_c) \<and>
   select_duplicates non_numeric_b = [(4, ''B'')] \<and>
   select_duplicates non_numeric_c = [(9, ''C'')]"
  by code_simp

text \<open>
  C9, amended. Take a page of the duplicate pass in a run without driver faults, and a row
  \<open>(i, name)\<close> of it that is reached after the rows before it went through. If the greatest
  disambiguation of that name is a text that \<^verbatim>\<open>Atoi\<close> refuses, the loop returns
  \<^verbatim>\<open>Atoi\<close>'s error, which names that text, and the database is as it was when the row was
  reached: nothing is written for the performer. The pass returns the error and
  \<^verbatim>\<open>post42\<close> returns it wrapped, with the database unchanged since: no later stage runs.
\<close>

theorem non_numeric_disambiguation_fatal:
  assumes "faults s = None"
    and "select_duplicates s = pre @ (i, name) # post"
    and "dup_rows pre (v\<lparr>d_gotSome := False\<rparr>) s = (None, v1, s1)"
    and "select_disambiguation name s1 = [Some str]"
    and "Atoi str = Inl err"
  shows "dup_loop v s =
           Some (Some err,
                 v1\<lparr>d_gotSome := True, d_count := d_count v1 + 1,
                    d_processed := d_processed v1 @ [(i, name)]\<rparr>, s1) \<and>
         (err = NumError ''Atoi'' str ErrSyntax \<or> err = NumError ''Atoi'' str ErrRange) \<and>
         (v = \<lparr>d_count = 0, d_gotSome = False, d_processed = []\<rparr> \<longrightarrow>
            migrateDuplicatePerformers s = Some (Some err, s1) \<and>
            (\<forall>s0. migrate s0 = Some (None, s) \<longrightarrow>
               post42 s0 = Some (Some (Wrapped ''migrating performer aliases'' err), s1)))"
proof -
  let ?v1 = "v1\<lparr>d_gotSome := True, d_count := d_count v1 + 1,
                    d_processed := d_processed v1 @ [(i, name)]\<rparr>"
  note f1 = dup_rows_faults [OF assms(1,3)]
  have row: "migrateDuplicatePerformer i name s1 = (Some err, s1)"
    by (simp add: migrateDuplicatePerformer_ok [OF f1] assms(4,5))
  have "withTxn dup_page (v\<lparr>d_gotSome := False\<rparr>) s =
        dup_rows ((i, name) # post) v1 s1"
    by (simp add: withTxn_dup_page_no_faults [OF assms(1)] assms(2) dup_rows_append [OF assms(1,3)])
  also have "\<dots> = (Some err, ?v1, s1)"
    by (simp add: db_call_ok [OF f1] row Let_def)
  finally have page: "withTxn dup_page (v\<lparr>d_gotSome := False\<rparr>) s = (Some err, ?v1, s1)" .
  have loop: "dup_loop v s = Some (Some err, ?v1, s1)"
    by (subst dup_loop.simps) (simp add: page)
  have pass: "migrateDuplicatePerformers s = Some (Some err, s1)"
    if "v = \<lparr>d_count = 0, d_gotSome = False, d_processed = []\<rparr>"
    using loop that by (simp add: migrateDuplicatePerformers_def)
  have run: "post42 s0 = Some (Some (Wrapped ''migrating performer aliases'' err), s1)"
    if "v = \<lparr>d_count = 0, d_gotSome = False, d_processed = []\<rparr>"
      and "migrate s0 = Some (None, s)" for s0
    using pass [OF that(1)] that(2) by (simp add: post42_def)
  from loop Atoi_error [OF assms(5)] pass run show ?thesis by blast
qed

theorem non_numeric_disambiguation_fatal_witness:
  "dup_loop \<lparr>d_count = 0, d_gotSome = False, d_processed = []\<rparr> mixed_page =
     Some (Some (NumError ''Atoi'' ''x'' ErrSyntax),
           \<lparr>d_count = 2, d_gotSome = True, d_processed = [(2, ''A''), (4, ''B'')]\<rparr>,
           mixed_page_aborted) \<and>
   migrateDuplicatePerformers mixed_page =
     Some (Some (NumError ''Atoi'' ''x'' ErrSyntax), mixed_page_aborted) \<and>
   post42 mixed_page =
     Some (Some (Wrapped ''migrating performer aliases'' (NumError ''Atoi'' ''x'' ErrSyntax)),
           mixed_page_aborted)"
proof -
  let ?v = "\<lparr>d_count = 0, d_gotSome = False, d_processed = []\<rparr>"
  let ?v1 = "\<lparr>d_count = 1, d_gotSome = True, d_processed = [(2, ''A'')]\<rparr>"
  have h1: "faults mixed_page = None" by (simp add: mixed_page_def)
  have h2: "select_duplicates mixed_page = [(2, ''A'')] @ (4, ''B'') # []" by code_simp
  have h3: "dup_rows [(2, ''A'')] (?v\<lparr>d_gotSome := False\<rparr>) mixed_page = (None, ?v1, mixed_page_aborted)"
    by code_simp
  have h4: "select_disambiguation ''B'' mixed_page_aborted = [Some ''x'']" by code_simp
  have h5: "Atoi ''x'' = Inl (NumError ''Atoi'' ''x'' ErrSyntax)" by code_simp
  have h6: "migrate mixed_page = Some (None, mixed_page)" by code_simp
  from non_numeric_disambiguation_fatal [OF h1 h2 h3 h4 h5] h6 show ?thesis by simp
qed

subsection \<open>A page that fails after it has written\<close>

text \<open>
  C6 asks that no write of a page that returned an error is persisted. The page function
  never uses the transaction it is handed: every statement goes to \<^verbatim>\<open>m.db\<close>, so aborting
  the transaction takes nothing back. In the duplicate pass the page of \<open>mixed_page\<close> holds
  performers 2 and 4; performer 4 fails on the disambiguation \<open>x\<close>, and the disambiguation
  written for performer 2 stays. In the alias pass the refused insert leaves performer 1
  without its composite alias and with one of its two aliases.
\<close>

theorem page_writes_survive_abort:
  "select_duplicates mixed_page = [(2, ''A''), (4, ''B'')] \<and>
   withTxn dup_page \<lparr>d_count = 0, d_gotSome = False, d_processed = []\<rparr> mixed_page =
     (Some (NumError ''Atoi'' ''x'' ErrSyntax),
      \<lparr>d_count = 2, d_gotSome = True, d_processed = [(2, ''A''), (4, ''B'')]\<rparr>,
      mixed_page_aborted) \<and>
   map p_disambiguation (performers mixed_page) = [None, None, Some ''x'', None] \<and>
   map p_disambiguation (performers mixed_page_aborted) = [None, Some ''1'', Some ''x'', None] \<and>
   migrateDuplicatePerformers mixed_page =
     Some (Some (NumError ''Atoi'' ''x'' ErrSyntax), mixed_page_aborted) \<and>
   migrate composite_alias_faulty =
     Some (Some DriverError,
           composite_alias_faulty
             \<lparr>performer_aliases := [\<lparr>a_performer_id = 1, a_alias = ''a''\<rparr>], faults := None\<rparr>)"
  by code_simp

subsection \<open>More than ten duplicates of one name\<close>

text \<open>
  C1 asks for the sequence 1, 2, 3, ... The query for the highest disambiguation orders the
  column as text, where \<open>9\<close> is above \<open>10\<close>: once \<open>10\<close> is assigned the highest value
  found stays \<open>9\<close>, and every further duplicate of the name gets \<open>10\<close> again. With twelve
  performers of one name, processed in ascending id order, performers 11 and 12 both end with
  \<open>10\<close>, and the unique index cannot be created.
\<close>

theorem twelve_alices_repeat_ten:
  "map_option (\<lambda>(e, v, s). (e, map fst (d_processed v), map p_disambiguation (performers s)))
     (dup_loop \<lparr>d_count = 0, d_gotSome = False, d_processed = []\<rparr> twelve_alices) =
   Some (None, [2, 3, 4, 5, 6, 7, 8, 9, 10, 11, 12],
         [None, Some ''1'', Some ''2'', Some ''3'', Some ''4'', Some ''5'', Some ''6'',
          Some ''7'', Some ''8'', Some ''9'', Some ''10'', Some ''10'']) \<and>
   map_option fst (post42 twelve_alices) =
   Some (Some (Wrapped ''executing schema changes''
                 (ConstraintFailed ''performers_name_disambiguation_unique'')))"
  by code_simp

subsection \<open>The alias pass when the driver refuses nothing\<close>

lemma insert_aliases_ok:
  assumes "faults s = None"
  shows "insert_aliases i as s =
     (None, s\<lparr>performer_aliases :=
                performer_aliases s @ map (\<lambda>a. \<lparr>a_performer_id = i, a_alias = a\<rparr>) as\<rparr>)"
  using assms
proof (induction as arbitrary: s)
  case Nil
  then show ?case by simp
next
  case (Cons a as)
  let ?s = "apply_stmt (InsertAlias i a) s"
  from Cons.prems have "faults ?s = None" by simp
  from Cons.IH [OF this] Cons.prems show ?case by (simp add: db_Exec_ok)
qed

lemma migratePerformerAliases_ok:
  assumes "faults s = None"
  shows "migratePerformerAliases (a_performer_id r) (a_alias r) s =
     (None, s\<lparr>performer_aliases := normalize_row r (performer_aliases s)\<rparr>)"
proof (cases "length (FieldsFunc (a_alias r) isDelim) < 2")
  case True
  then show ?thesis by (simp add: migratePerformerAliases_def normalize_row_def)
next
  case False
  let ?s = "apply_stmt (DeleteAliases (a_performer_id r)) s"
  from assms have "faults ?s = None" by simp
  from insert_aliases_ok [OF this] False assms show ?thesis
    by (simp add: migratePerformerAliases_def normalize_row_def db_Exec_ok Let_def)
qed

lemma alias_rows_ok:
  assumes "faults s = None"
  shows "alias_rows rows v s =
     (None,
      v\<lparr>lastID := (if rows = [] then lastID v else a_performer_id (last rows)),
        gotSome := gotSome v \<or> rows \<noteq> [],
        count := count v + length rows,
        fetched := fetched v @ rows\<rparr>,
      s\<lparr>performer_aliases := foldl (\<lambda>t r. normalize_row r t) (performer_aliases s) rows\<rparr>)"
  using assms
proof (induction rows arbitrary: v s)
  case Nil
  then show ?case by (simp add: db_call_ok)
next
  case (Cons r rs)
  let ?s = "s\<lparr>performer_aliases := normalize_row r (performer_aliases s)\<rparr>"
  from Cons.prems have "faults ?s = None" by simp
  from Cons.IH [OF this] Cons.prems show ?case
    by (simp add: db_call_ok migratePerformerAliases_ok Let_def)
qed

lemma withTxn_alias_page_no_faults:
  assumes "faults s = None"
  shows "withTxn alias_page v s = alias_rows (select_aliases (lastID v) s) v s"
  using assms
  by (simp add: withTxn_def alias_page_def db_call_ok db_Query_ok alias_rows_ok)

subsection \<open>Fields, trimming and deduplication\<close>

lemma fields_from_no_sep:
  assumes "\<forall>c \<in> set cur. \<not> f c"
  shows "\<forall>x \<in> set (fields_from f cur s). \<forall>c \<in> set x. \<not> f c"
  using assms
proof (induction s arbitrary: cur)
  case Nil
  then show ?case by simp
next
  case (Cons a s)
  show ?case
  proof (cases "f a")
    case True
    from Cons.IH [of "[]"] have "\<forall>x \<in> set (fields_from f [] s). \<forall>c \<in> set x. \<not> f c" by simp
    with True Cons.prems show ?thesis by simp
  next
    case False
    with Cons.prems have "\<forall>c \<in> set (cur @ [a]). \<not> f c" by simp
    from Cons.IH [OF this] False show ?thesis by simp
  qed
qed

lemma fields_from_whole:
  assumes "\<forall>c \<in> set s. \<not> f c"
  shows "fields_from f cur s = (if cur @ s = [] then [] else [cur @ s])"
  using assms by (induction s arbitrary: cur) auto

lemma FieldsFunc_no_sep: "\<forall>x \<in> set (FieldsFunc s f). \<forall>c \<in> set x. \<not> f c"
  unfolding FieldsFunc_def by (rule fields_from_no_sep) simp

lemma FieldsFunc_whole: "\<forall>c \<in> set s. \<not> f c \<Longrightarrow> length (FieldsFunc s f) < 2"
  by (simp add: FieldsFunc_def fields_from_whole)

lemma set_TrimLeft: "set (TrimLeft s) \<subseteq> set s"
proof (induction s rule: TrimLeft.induct)
  case (1 s)
  show ?case
  proof (cases "space_width s = 0")
    case True
    then show ?thesis by (subst TrimLeft.simps) simp
  next
    case False
    from 1 [OF False] set_drop_subset [of "space_width s" s]
    have "set (TrimLeft (drop (space_width s) s)) \<subseteq> set s" by blast
    with False show ?thesis by (subst TrimLeft.simps) simp
  qed
qed

lemma set_TrimRight: "set (TrimRight s) \<subseteq> set s"
proof (induction s rule: TrimRight.induct)
  case (1 s)
  show ?case
  proof (cases "space_width_end s = 0")
    case True
    then show ?thesis by (subst TrimRight.simps) simp
  next
    case False
    from 1 [OF False] set_take_subset [of "length s - space_width_end s" s]
    have "set (TrimRight (take (length s - space_width_end s) s)) \<subseteq> set s" by blast
    with False show ?thesis by (subst TrimRight.simps) simp
  qed
qed

lemma set_TrimSpace: "set (TrimSpace s) \<subseteq> set s"
  unfolding TrimSpace_def using set_TrimRight [of "TrimLeft s"] set_TrimLeft [of s] by blast

text \<open>
  \<^verbatim>\<open>StrAppendUniques\<close> on an empty slice keeps the first occurrence of every value, in
  order: in terms of the list library, it is \<open>remdups\<close> read from the front.
\<close>

lemma set_StrAppendUniques: "set (StrAppendUniques vs xs) = set vs \<union> set xs"
  unfolding StrAppendUniques_def
  by (induction xs arbitrary: vs) (auto simp: StrAppendUnique_def)

lemma distinct_StrAppendUniques: "distinct vs \<Longrightarrow> distinct (StrAppendUniques vs xs)"
  unfolding StrAppendUniques_def
  by (induction xs arbitrary: vs) (auto simp: StrAppendUnique_def)

lemma StrAppendUniques_first_occurrences:
  "StrAppendUniques [] xs = rev (remdups (rev xs))"
proof (induction xs rule: rev_induct)
  case Nil
  then show ?case by (simp add: StrAppendUniques_def)
next
  case (snoc x xs)
  have "StrAppendUniques [] (xs @ [x]) = StrAppendUnique (StrAppendUniques [] xs) x"
    by (simp add: StrAppendUniques_def)
  also have "\<dots> = (if x \<in> set xs then StrAppendUniques [] xs else StrAppendUniques [] xs @ [x])"
    by (simp add: StrAppendUnique_def set_StrAppendUniques)
  finally show ?case using snoc by simp
qed

subsection \<open>Pages of the alias pass\<close>

lemma limit_pos: "0 < limit"
  by (simp add: limit_def)

lemma select_aliases_pending:
  assumes "0 \<le> b" and "\<forall>r \<in> set (performer_aliases s). 0 < a_performer_id r"
  shows "select_aliases b s = take limit (pending b (performer_aliases s))"
proof (cases "b = 0")
  case True
  with assms(2) have "filter (\<lambda>r. a_performer_id r > b) (performer_aliases s) = performer_aliases s"
    by (simp add: filter_id_conv)
  with True show ?thesis by (simp add: select_aliases_def pending_def)
next
  case False
  then show ?thesis by (simp add: select_aliases_def pending_def)
qed

lemma normalize_row_after:
  assumes "a_performer_id r \<le> b"
  shows "filter (\<lambda>x. a_performer_id x > b) (normalize_row r t) = filter (\<lambda>x. a_performer_id x > b) t"
proof -
  have "filter (\<lambda>x. a_performer_id x > b) (filter (\<lambda>x. a_performer_id x \<noteq> a_performer_id r) t) =
        filter (\<lambda>x. a_performer_id x > b) t"
    using assms by (auto intro: filter_cong)
  moreover have "filter (\<lambda>x. a_performer_id x > b)
        (map (\<lambda>a. \<lparr>a_performer_id = a_performer_id r, a_alias = a\<rparr>) as) = []" for as
    using assms by (induction as) auto
  ultimately show ?thesis by (simp add: normalize_row_def)
qed

lemma normalize_rows_after:
  assumes "\<forall>r \<in> set rows. a_performer_id r \<le> b"
  shows "filter (\<lambda>x. a_performer_id x > b) (foldl (\<lambda>t r. normalize_row r t) t rows) =
         filter (\<lambda>x. a_performer_id x > b) t"
  using assms by (induction rows arbitrary: t) (simp_all add: normalize_row_after)

lemma normalize_row_positive:
  assumes "\<forall>x \<in> set t. 0 < a_performer_id x" and "0 < a_performer_id r"
  shows "\<forall>x \<in> set (normalize_row r t). 0 < a_performer_id x"
  using assms by (auto simp: normalize_row_def)

lemma normalize_rows_positive:
  assumes "\<forall>x \<in> set t. 0 < a_performer_id x" and "\<forall>r \<in> set rows. 0 < a_performer_id r"
  shows "\<forall>x \<in> set (foldl (\<lambda>t r. normalize_row r t) t rows). 0 < a_performer_id x"
  using assms
proof (induction rows arbitrary: t)
  case Nil
  then show ?case by simp
next
  case (Cons r rs)
  from Cons.prems have "\<forall>x \<in> set (normalize_row r t). 0 < a_performer_id x"
    by (intro normalize_row_positive) simp_all
  from Cons.IH [OF this] Cons.prems(2) show ?case by simp
qed

text \<open>In a list sorted by a key without repetitions, the elements above the key of the
  \<open>n\<close>-th one are the elements after it.\<close>

lemma filter_above_nth:
  assumes "sorted (map f xs)" and "distinct (map f xs)" and "0 < n" and "n \<le> length xs"
  shows "filter (\<lambda>x. f x > f (xs ! (n - 1))) xs = drop n xs"
proof -
  let ?k = "f (xs ! (n - 1))"
  have split: "xs = take n xs @ drop n xs" by simp
  have kin: "xs ! (n - 1) \<in> set (take n xs)"
  proof -
    from assms(3,4) have "n - 1 < length (take n xs)" by simp
    from nth_mem [OF this] assms(3,4) show ?thesis by simp
  qed
  have s: "sorted (map f (take n xs) @ map f (drop n xs))"
    and d: "distinct (map f (take n xs) @ map f (drop n xs))"
    using assms(1,2) by (simp_all flip: map_append)
  have lo: "\<forall>x \<in> set (take n xs). \<not> f x > ?k"
  proof
    fix x assume "x \<in> set (take n xs)"
    then obtain i where i: "i < n" "i < length xs" "x = xs ! i"
      by (auto simp: in_set_conv_nth)
    with assms have "f (xs ! i) \<le> f (xs ! (n - 1))"
      using sorted_nth_mono [of "map f xs" i "n - 1"] by simp
    with i show "\<not> f x > ?k" by simp
  qed
  have hi: "\<forall>x \<in> set (drop n xs). f x > ?k"
  proof
    fix x assume x: "x \<in> set (drop n xs)"
    from s x kin have "?k \<le> f x" by (auto simp: sorted_append)
    moreover from d x kin have "?k \<noteq> f x" by auto
    ultimately show "f x > ?k" by simp
  qed
  from lo have a: "filter (\<lambda>x. f x > ?k) (take n xs) = []"
    by (simp add: filter_empty_conv)
  from hi have b: "filter (\<lambda>x. f x > ?k) (drop n xs) = drop n xs"
    by (simp add: filter_id_conv)
  have "filter (\<lambda>x. f x > ?k) xs = filter (\<lambda>x. f x > ?k) (take n xs @ drop n xs)"
    by simp
  also have "\<dots> = drop n xs"
    by (simp only: filter_append a b append_Nil)
  finally show ?thesis .
qed

lemma sorted_pending: "sorted (map a_performer_id (pending b tbl))"
  by (simp add: pending_def)

lemma pending_after: "\<forall>r \<in> set (pending b tbl). a_performer_id r > b"
  by (simp add: pending_def)

lemma pending_sub: "set (pending b tbl) \<subseteq> set tbl"
  by (auto simp: pending_def)

text \<open>
  After a page has been processed, and with the boundary at the id of its last row, the
  rows still pending are the rows that were pending behind the page.
\<close>

lemma pending_next:
  assumes d: "distinct (map a_performer_id (pending b tbl))"
    and ne: "pending b tbl \<noteq> []"
  shows "pending (a_performer_id (last (take limit (pending b tbl))))
           (foldl (\<lambda>t r. normalize_row r t) tbl (take limit (pending b tbl))) =
         drop limit (pending b tbl)"
proof -
  define P where "P = pending b tbl"
  define n where "n = min limit (length P)"
  define page where "page = take limit P"
  define b' where "b' = a_performer_id (last page)"
  have sP: "sorted (map a_performer_id P)" unfolding P_def by (rule sorted_pending)
  have dP: "distinct (map a_performer_id P)" unfolding P_def by (rule d)
  from ne limit_pos have n: "0 < n" "n \<le> length P" by (simp_all add: n_def P_def)
  have page: "page = take n P" by (auto simp: page_def n_def min_def)
  from n have len: "length page = n" by (simp add: page)
  with n have pne: "page \<noteq> []" by auto
  from pne len n have lastP: "last page = P ! (n - 1)"
    by (simp add: last_conv_nth page)
  have below: "\<forall>r \<in> set page. a_performer_id r \<le> b'"
  proof
    fix r assume "r \<in> set page"
    then obtain i where i: "i < n" "r = P ! i"
      using len n by (auto simp: in_set_conv_nth page)
    from i(1) n have "i \<le> n - 1" "n - 1 < length (map a_performer_id P)" by simp_all
    from sorted_nth_mono [OF sP this] i n
    have "a_performer_id (P ! i) \<le> a_performer_id (P ! (n - 1))" by simp
    with i lastP show "a_performer_id r \<le> b'" by (simp add: b'_def)
  qed
  from n have "P ! (n - 1) \<in> set P" by simp
  with pending_after [of b tbl] have bb: "b < b'" by (simp add: b'_def lastP P_def)
  have "pending b' (foldl (\<lambda>t r. normalize_row r t) tbl page) =
        sort_key a_performer_id (filter (\<lambda>x. a_performer_id x > b') tbl)"
    by (simp add: pending_def normalize_rows_after [OF below])
  also have "filter (\<lambda>x. a_performer_id x > b') tbl =
        filter (\<lambda>x. a_performer_id x > b') (filter (\<lambda>x. a_performer_id x > b) tbl)"
    using bb by (auto intro: filter_cong)
  also have "sort_key a_performer_id \<dots> = filter (\<lambda>x. a_performer_id x > b') P"
    by (simp add: pending_def filter_sort P_def)
  also have "\<dots> = drop n P"
    unfolding b'_def lastP by (rule filter_above_nth [OF sP dP n])
  also have "\<dots> = drop limit P" by (simp add: n_def min_def)
  finally show ?thesis by (simp add: b'_def page_def P_def)
qed

text \<open>
  The loop of the alias pass, from a state in which the pending rows have pairwise distinct
  ids: it returns, it has fetched the pending rows in the order of their ids, and the table
  is what processing them one after the other in that order gives, whatever the page size.
\<close>

lemma migrate_loop_sorted:
  assumes "faults s = None" and "0 \<le> lastID v"
    and "\<forall>r \<in> set (performer_aliases s). 0 < a_performer_id r"
    and "distinct (map a_performer_id (pending (lastID v) (performer_aliases s)))"
  shows "migrate_loop v s =
     Some (None,
       v\<lparr>lastID := (if pending (lastID v) (performer_aliases s) = [] then lastID v
                    else a_performer_id (last (pending (lastID v) (performer_aliases s)))),
         gotSome := False,
         count := count v + length (pending (lastID v) (performer_aliases s)),
         fetched := fetched v @ pending (lastID v) (performer_aliases s)\<rparr>,
       s\<lparr>performer_aliases :=
           foldl (\<lambda>t r. normalize_row r t) (performer_aliases s)
             (pending (lastID v) (performer_aliases s))\<rparr>)"
  using assms
proof (induction "length (pending (lastID v) (performer_aliases s))" arbitrary: v s rule: less_induct)
  case less
  define T where "T = performer_aliases s"
  define P where "P = pending (lastID v) T"
  define page where "page = take limit P"
  define D where "D = drop limit P"
  define v1 where "v1 = v\<lparr>lastID := (if page = [] then lastID v else a_performer_id (last page)),
        gotSome := page \<noteq> [], count := count v + length page, fetched := fetched v @ page\<rparr>"
  define s1 where "s1 = s\<lparr>performer_aliases := foldl (\<lambda>t r. normalize_row r t) T page\<rparr>"
  have PD: "P = page @ D" by (simp add: page_def D_def)
  have sel: "select_aliases (lastID v) s = page"
    using select_aliases_pending [OF less.prems(2,3)] by (simp add: page_def P_def T_def)
  have w: "withTxn alias_page (v\<lparr>gotSome := False\<rparr>) s = (None, v1, s1)"
    by (simp add: withTxn_alias_page_no_faults [OF less.prems(1)] alias_rows_ok [OF less.prems(1)]
        sel v1_def s1_def T_def)
  show ?case
  proof (cases "P = []")
    case True
    then have "page = []" by (simp add: page_def)
    with w have "migrate_loop v s = Some (None, v1, s1)"
      by (subst migrate_loop.simps) (simp add: v1_def)
    with True \<open>page = []\<close> show ?thesis
      by (simp add: v1_def s1_def P_def T_def)
  next
    case False
    with limit_pos have pne: "page \<noteq> []" by (simp add: page_def)
    with w have step: "migrate_loop v s = migrate_loop v1 s1"
      by (subst migrate_loop.simps) (simp add: v1_def)
    have l1: "lastID v1 = a_performer_id (last page)" using pne by (simp add: v1_def)
    have T1: "performer_aliases s1 = foldl (\<lambda>t r. normalize_row r t) T page"
      by (simp add: s1_def)
    have next_pending: "pending (lastID v1) (performer_aliases s1) = D"
      using pending_next [OF less.prems(4) [folded T_def P_def] False [unfolded P_def]]
      by (simp add: l1 T1 page_def D_def P_def)
    have f1: "faults s1 = None" using less.prems(1) by (simp add: s1_def)
    from pne have "last page \<in> set P" unfolding page_def using in_set_takeD last_in_set by metis
    with pending_after [of "lastID v" T] less.prems(2) have b1: "0 \<le> lastID v1"
      by (auto simp: l1 P_def)
    have "set page \<subseteq> set T"
      using pending_sub [of "lastID v" T] set_take_subset [of limit P] by (auto simp: page_def P_def)
    with less.prems(3) have "\<forall>r \<in> set page. 0 < a_performer_id r" by (auto simp: T_def)
    with less.prems(3) have pos1: "\<forall>r \<in> set (performer_aliases s1). 0 < a_performer_id r"
      unfolding T1 by (intro normalize_rows_positive) (simp_all add: T_def)
    from less.prems(4) have "distinct (map a_performer_id D)"
      by (simp add: D_def P_def T_def distinct_drop flip: drop_map)
    then have d1: "distinct (map a_performer_id (pending (lastID v1) (performer_aliases s1)))"
      by (simp add: next_pending)
    from False limit_pos have "length D < length P" by (simp add: D_def)
    then have "length (pending (lastID v1) (performer_aliases s1))
        < length (pending (lastID v) (performer_aliases s))"
      by (simp add: next_pending P_def T_def)
    from less.hyps [OF this f1 b1 pos1 d1]
    have "migrate_loop v1 s1 =
       Some (None,
         v1\<lparr>lastID := (if D = [] then lastID v1 else a_performer_id (last D)),
           gotSome := False, count := count v1 + length D, fetched := fetched v1 @ D\<rparr>,
         s1\<lparr>performer_aliases := foldl (\<lambda>t r. normalize_row r t) (performer_aliases s1) D\<rparr>)"
      by (simp add: next_pending)
    also have "v1\<lparr>lastID := (if D = [] then lastID v1 else a_performer_id (last D)),
           gotSome := False, count := count v1 + length D, fetched := fetched v1 @ D\<rparr> =
        v\<lparr>lastID := a_performer_id (last P), gotSome := False,
          count := count v + length P, fetched := fetched v @ P\<rparr>"
      using pne by (simp add: v1_def PD)
    also have "s1\<lparr>performer_aliases := foldl (\<lambda>t r. normalize_row r t) (performer_aliases s1) D\<rparr> =
        s\<lparr>performer_aliases := foldl (\<lambda>t r. normalize_row r t) T P\<rparr>"
      by (simp add: s1_def PD)
    finally show ?thesis using False step by (simp add: P_def T_def)
  qed
qed

lemma distinct_map_insort_key:
  "distinct (map f (insort_key f x xs)) = (f x \<notin> f ` set xs \<and> distinct (map f xs))"
  by (induction xs) (auto simp: set_insort_key)

lemma distinct_map_sort_key: "distinct (map f (sort_key f xs)) = distinct (map f xs)"
  by (induction xs) (simp_all add: distinct_map_insort_key)

lemma pending_all:
  assumes "\<forall>r \<in> set tbl. 0 < a_performer_id r"
  shows "pending 0 tbl = sort_key a_performer_id tbl"
  using assms by (simp add: pending_def filter_id_conv)

text \<open>The whole alias pass on a table in which every row has its own, positive, performer id.\<close>

lemma migrate_loop_distinct:
  assumes "faults s = None"
    and "distinct (map a_performer_id (performer_aliases s))"
    and "\<forall>r \<in> set (performer_aliases s). 0 < a_performer_id r"
  shows "migrate_loop \<lparr>lastID = 0, count = 0, gotSome = False, fetched = []\<rparr> s =
     Some (None,
       \<lparr>lastID = (if performer_aliases s = [] then 0
                  else a_performer_id (last (sort_key a_performer_id (performer_aliases s)))),
        count = length (performer_aliases s), gotSome = False,
        fetched = sort_key a_performer_id (performer_aliases s)\<rparr>,
       s\<lparr>performer_aliases :=
           foldl (\<lambda>t r. normalize_row r t) (performer_aliases s)
             (sort_key a_performer_id (performer_aliases s))\<rparr>)"
proof -
  let ?v = "\<lparr>lastID = 0, count = 0, gotSome = False, fetched = []\<rparr>"
  note p = pending_all [OF assms(3)]
  have d: "distinct (map a_performer_id (pending (lastID ?v) (performer_aliases s)))"
    using assms(2) by (simp add: p distinct_map_sort_key)
  have e: "(sort_key a_performer_id (performer_aliases s) = []) = (performer_aliases s = [])"
    using length_sort [of a_performer_id "performer_aliases s"] by (metis length_0_conv)
  from migrate_loop_sorted [OF assms(1) _ assms(3) d] show ?thesis
    by (simp add: p e)
qed

subsection \<open>Rows that are left as they are\<close>

lemma normalize_rows_noop:
  assumes "\<forall>r \<in> set rows. length (FieldsFunc (a_alias r) isDelim) < 2"
  shows "foldl (\<lambda>t r. normalize_row r t) t rows = t"
  using assms by (induction rows arbitrary: t) (simp_all add: normalize_row_def)

lemma many_aliases_rows:
  assumes "r \<in> set (performer_aliases one_performer_many_aliases)"
  shows "a_performer_id r = 1" and "length (FieldsFunc (a_alias r) isDelim) < 2"
proof -
  from assms obtain k where r: "r = \<lparr>a_performer_id = 1, a_alias = replicate (Suc k) CHR ''a''\<rparr>"
    by (auto simp: one_performer_many_aliases_def)
  then show "a_performer_id r = 1" by simp
  have "\<forall>c \<in> set (a_alias r). \<not> isDelim c" by (auto simp: r isDelim_def)
  then show "length (FieldsFunc (a_alias r) isDelim) < 2" by (rule FieldsFunc_whole)
qed

text \<open>
  The claim has every row fetched once. Here the first page takes \<open>limit\<close> rows of
  performer 1 and moves the boundary to 1; the second page asks for ids above 1 and is
  empty; the pass ends, and the last row of the table was never fetched.
\<close>

theorem alias_row_skipped_counterexample:
  "migrate_loop \<lparr>lastID = 0, count = 0, gotSome = False, fetched = []\<rparr> one_performer_many_aliases =
     Some (None,
           \<lparr>lastID = 1, count = limit, gotSome = False,
            fetched = take limit (performer_aliases one_performer_many_aliases)\<rparr>,
           one_performer_many_aliases) \<and>
   length (performer_aliases one_performer_many_aliases) = Suc limit \<and>
   last (performer_aliases one_performer_many_aliases)
     \<notin> set (take limit (performer_aliases one_performer_many_aliases))"
proof -
  let ?s = one_performer_many_aliases
  let ?T = "performer_aliases ?s"
  let ?v0 = "\<lparr>lastID = 0, count = 0, gotSome = False, fetched = []\<rparr>"
  let ?v1 = "\<lparr>lastID = 1, count = limit, gotSome = True, fetched = take limit ?T\<rparr>"
  have nf: "faults ?s = None" by (simp add: one_performer_many_aliases_def)
  have len: "length ?T = Suc limit" by (simp add: one_performer_many_aliases_def)
  have "sorted (map a_performer_id rows)" if "set rows \<subseteq> set ?T" for rows
    using that many_aliases_rows(1) by (induction rows) auto
  then have sortT: "sort_key a_performer_id ?T = ?T"
    by (intro sort_key_id_if_sorted) simp
  have page1: "select_aliases 0 ?s = take limit ?T"
    by (simp add: select_aliases_def sortT)
  from len limit_pos have ne: "take limit ?T \<noteq> []" by auto
  have "last (take limit ?T) \<in> set ?T" using ne in_set_takeD last_in_set by metis
  from many_aliases_rows(1) [OF this] have last1: "a_performer_id (last (take limit ?T)) = 1" .
  have noop: "foldl (\<lambda>t r. normalize_row r t) ?T rows = ?T" if "set rows \<subseteq> set ?T" for rows
    using that many_aliases_rows(2) by (intro normalize_rows_noop) blast
  have keep: "?s\<lparr>performer_aliases := ?T\<rparr> = ?s" by simp
  have w1: "withTxn alias_page (?v0\<lparr>gotSome := False\<rparr>) ?s = (None, ?v1, ?s)"
    using ne len
    by (simp add: withTxn_alias_page_no_faults [OF nf] alias_rows_ok [OF nf] page1 last1
        noop [OF set_take_subset] keep min_def)
  have "filter (\<lambda>r. a_performer_id r > 1) ?T = []"
    using many_aliases_rows(1) by (simp add: filter_empty_conv)
  then have page2: "select_aliases 1 ?s = []" by (simp add: select_aliases_def)
  have w2: "withTxn alias_page (?v1\<lparr>gotSome := False\<rparr>) ?s =
      (None, \<lparr>lastID = 1, count = limit, gotSome = False, fetched = take limit ?T\<rparr>, ?s)"
    by (simp add: withTxn_alias_page_no_faults [OF nf] alias_rows_ok [OF nf] page2 keep)
  have "migrate_loop ?v0 ?s = migrate_loop ?v1 ?s"
    by (subst migrate_loop.simps) (simp add: w1 [simplified])
  also have "\<dots> = Some (None, \<lparr>lastID = 1, count = limit, gotSome = False,
      fetched = take limit ?T\<rparr>, ?s)"
    by (subst migrate_loop.simps) (simp add: w2 [simplified])
  finally have run: "migrate_loop ?v0 ?s = Some (None, \<lparr>lastID = 1, count = limit, gotSome = False,
      fetched = take limit ?T\<rparr>, ?s)" .
  have inj: "inj (\<lambda>k. replicate (Suc k) CHR ''a'')"
    by (rule injI) (metis length_replicate nat.inject)
  have "map a_alias ?T = map (\<lambda>k. replicate (Suc k) CHR ''a'') [0..<Suc limit]"
    by (simp add: one_performer_many_aliases_def comp_def del: upt_Suc)
  moreover have "distinct (map (\<lambda>k. replicate (Suc k) CHR ''a'') [0..<Suc limit])"
    unfolding distinct_map using inj by (auto intro: inj_on_subset)
  ultimately have "distinct (map a_alias ?T)" by simp
  then have dT: "distinct ?T" by (simp add: distinct_map)
  have "?T = take limit ?T @ [last ?T]"
    using len by (metis append_butlast_last_id butlast_conv_take diff_Suc_1 length_0_conv nat.distinct(1))
  with dT have "last ?T \<notin> set (take limit ?T)"
    by (metis distinct_append disjoint_iff list.set_intros(1))
  with run len show ?thesis by simp
qed

text \<open>
  C5, amended. When no two rows of \<^verbatim>\<open>performer_aliases\<close> share a performer id, the ids
  are positive and the driver refuses nothing, the alias pass returns and has fetched every
  row that was in the table at its start exactly once, in ascending order of the ids.
\<close>

theorem alias_rows_fetched_once:
  assumes "faults s = None"
    and "distinct (map a_performer_id (performer_aliases s))"
    and "\<forall>r \<in> set (performer_aliases s). 0 < a_performer_id r"
  shows "\<exists>v' s'. migrate_loop \<lparr>lastID = 0, count = 0, gotSome = False, fetched = []\<rparr> s =
             Some (None, v', s') \<and>
           migrate s = Some (None, s') \<and>
           set (fetched v') = set (performer_aliases s) \<and>
           distinct (fetched v') \<and>
           length (fetched v') = length (performer_aliases s) \<and>
           count v' = length (performer_aliases s) \<and>
           sorted (map a_performer_id (fetched v'))"
proof -
  note run = migrate_loop_distinct [OF assms]
  from assms(2) have "distinct (performer_aliases s)" by (simp add: distinct_map)
  with run show ?thesis by (simp add: migrate_def)
qed

theorem alias_rows_fetched_once_witness:
  "\<exists>v' s'. migrate_loop \<lparr>lastID = 0, count = 0, gotSome = False, fetched = []\<rparr> jane_and_solo =
       Some (None, v', s') \<and>
     migrate jane_and_solo = Some (None, s') \<and>
     set (fetched v') =
       {\<lparr>a_performer_id = 2, a_alias = ''Solo''\<rparr>,
        \<lparr>a_performer_id = 1, a_alias = ''Jane Doe, J. Doe / JD''\<rparr>} \<and>
     distinct (fetched v') \<and> length (fetched v') = 2 \<and> count v' = 2 \<and>
     sorted (map a_performer_id (fetched v'))"
  using alias_rows_fetched_once [of jane_and_solo]
  by (simp add: jane_and_solo_def numeral_2_eq_2)

subsection \<open>The aliases of one performer after the pass\<close>

lemma normalize_row_same:
  "filter (\<lambda>x. a_performer_id x = a_performer_id r) (normalize_row r t) =
     (if length (FieldsFunc (a_alias r) isDelim) < 2
      then filter (\<lambda>x. a_performer_id x = a_performer_id r) t
      else map (\<lambda>a. \<lparr>a_performer_id = a_performer_id r, a_alias = a\<rparr>)
             (StrAppendUniques [] (map TrimSpace (FieldsFunc (a_alias r) isDelim))))"
proof -
  have "filter (\<lambda>x. a_performer_id x = i) (filter (\<lambda>x. a_performer_id x \<noteq> i) t) = []" for i
    by (induction t) auto
  moreover have "filter (\<lambda>x. a_performer_id x = i)
      (map (\<lambda>a. \<lparr>a_performer_id = i, a_alias = a\<rparr>) as) =
      map (\<lambda>a. \<lparr>a_performer_id = i, a_alias = a\<rparr>) as" for i as
    by (induction as) auto
  ultimately show ?thesis by (simp add: normalize_row_def)
qed

lemma normalize_row_other:
  assumes "a_performer_id r \<noteq> i"
  shows "filter (\<lambda>x. a_performer_id x = i) (normalize_row r t) = filter (\<lambda>x. a_performer_id x = i) t"
proof -
  have "filter (\<lambda>x. a_performer_id x = i) (filter (\<lambda>x. a_performer_id x \<noteq> a_performer_id r) t) =
        filter (\<lambda>x. a_performer_id x = i) t"
    using assms by (auto intro: filter_cong)
  moreover have "filter (\<lambda>x. a_performer_id x = i)
        (map (\<lambda>a. \<lparr>a_performer_id = a_performer_id r, a_alias = a\<rparr>) as) = []" for as
    using assms by (induction as) auto
  ultimately show ?thesis by (simp add: normalize_row_def)
qed

lemma normalize_rows_other:
  assumes "i \<notin> a_performer_id ` set rows"
  shows "filter (\<lambda>x. a_performer_id x = i) (foldl (\<lambda>t r. normalize_row r t) t rows) =
         filter (\<lambda>x. a_performer_id x = i) t"
  using assms by (induction rows arbitrary: t) (simp_all add: normalize_row_other)

lemma normalize_rows_same:
  assumes "distinct (map a_performer_id rows)" and "r \<in> set rows"
  shows "filter (\<lambda>x. a_performer_id x = a_performer_id r) (foldl (\<lambda>t r. normalize_row r t) t rows) =
     (if length (FieldsFunc (a_alias r) isDelim) < 2
      then filter (\<lambda>x. a_performer_id x = a_performer_id r) t
      else map (\<lambda>a. \<lparr>a_performer_id = a_performer_id r, a_alias = a\<rparr>)
             (StrAppendUniques [] (map TrimSpace (FieldsFunc (a_alias r) isDelim))))"
  using assms
proof (induction rows arbitrary: t)
  case Nil
  then show ?case by simp
next
  case (Cons x xs)
  show ?case
  proof (cases "r = x")
    case True
    with Cons.prems(1) have "a_performer_id r \<notin> a_performer_id ` set xs" by simp
    from normalize_rows_other [OF this] True show ?thesis
      by (simp add: normalize_row_same)
  next
    case False
    with Cons.prems have rx: "r \<in> set xs" and "a_performer_id x \<noteq> a_performer_id r"
      by (auto simp: image_iff)
    from Cons.prems(1) have "distinct (map a_performer_id xs)" by simp
    from Cons.IH [OF this rx, of "normalize_row x t"] \<open>a_performer_id x \<noteq> a_performer_id r\<close>
    show ?thesis by (simp add: normalize_row_other)
  qed
qed

text \<open>
  C2. Take a table with one row per performer, positive ids and a driver that refuses
  nothing. For a performer whose raw alias text splits at \<open>,\<close> and \<open>/\<close> into at least two
  pieces, the alias pass returns and leaves as the aliases of that performer exactly the
  trimmed pieces, each once, in the order of their first occurrence; none of them holds a
  \<open>,\<close> or a \<open>/\<close>.
\<close>

theorem composite_alias_normalized:
  assumes "faults s = None"
    and "distinct (map a_performer_id (performer_aliases s))"
    and "\<forall>x \<in> set (performer_aliases s). 0 < a_performer_id x"
    and "r \<in> set (performer_aliases s)"
    and "2 \<le> length (FieldsFunc (a_alias r) isDelim)"
  shows "\<exists>s'. migrate s = Some (None, s') \<and>
           map a_alias (filter (\<lambda>x. a_performer_id x = a_performer_id r) (performer_aliases s')) =
             rev (remdups (rev (map TrimSpace (FieldsFunc (a_alias r) isDelim)))) \<and>
           (\<forall>x \<in> set (performer_aliases s'). a_performer_id x = a_performer_id r \<longrightarrow>
              CHR '','' \<notin> set (a_alias x) \<and> CHR ''/'' \<notin> set (a_alias x))"
proof -
  let ?S = "sort_key a_performer_id (performer_aliases s)"
  let ?T' = "foldl (\<lambda>t r. normalize_row r t) (performer_aliases s) ?S"
  let ?pieces = "FieldsFunc (a_alias r) isDelim"
  let ?new = "StrAppendUniques [] (map TrimSpace ?pieces)"
  from migrate_loop_distinct [OF assms(1,2,3)]
  have run: "migrate s = Some (None, s\<lparr>performer_aliases := ?T'\<rparr>)"
    by (simp add: migrate_def)
  have d: "distinct (map a_performer_id ?S)" using assms(2) by (simp add: distinct_map_sort_key)
  have rS: "r \<in> set ?S" using assms(4) by simp
  from normalize_rows_same [OF d rS] assms(5)
  have rows: "filter (\<lambda>x. a_performer_id x = a_performer_id r) ?T' =
      map (\<lambda>a. \<lparr>a_performer_id = a_performer_id r, a_alias = a\<rparr>) ?new"
    by simp
  then have names: "map a_alias (filter (\<lambda>x. a_performer_id x = a_performer_id r) ?T') = ?new"
    by (simp add: comp_def)
  have clean: "CHR '','' \<notin> set (a_alias x) \<and> CHR ''/'' \<notin> set (a_alias x)"
    if "x \<in> set ?T'" and "a_performer_id x = a_performer_id r" for x
  proof -
    from that have "x \<in> set (filter (\<lambda>x. a_performer_id x = a_performer_id r) ?T')" by simp
    with rows have "a_alias x \<in> set ?new" by auto
    then obtain p where p: "p \<in> set ?pieces" and a: "a_alias x = TrimSpace p"
      by (auto simp: set_StrAppendUniques)
    from FieldsFunc_no_sep [of "a_alias r" isDelim] p have "\<forall>c \<in> set p. \<not> isDelim c" by blast
    with set_TrimSpace [of p] a have "\<forall>c \<in> set (a_alias x). \<not> isDelim c" by auto
    then show ?thesis by (auto simp: isDelim_def)
  qed
  from run names clean show ?thesis
    by (simp add: StrAppendUniques_first_occurrences)
qed

theorem composite_alias_normalized_witness:
  "\<exists>s'. migrate jane_and_solo = Some (None, s') \<and>
     map a_alias (filter (\<lambda>x. a_performer_id x = 1) (performer_aliases s')) =
       [''Jane Doe'', ''J. Doe'', ''JD'']"
proof -
  have len: "2 \<le> length (FieldsFunc ''Jane Doe, J. Doe / JD'' isDelim)"
    by code_simp
  have e: "rev (remdups (rev (map TrimSpace (FieldsFunc ''Jane Doe, J. Doe / JD'' isDelim)))) =
      [''Jane Doe'', ''J. Doe'', ''JD'']"
    by code_simp
  from composite_alias_normalized
    [of jane_and_solo "\<lparr>a_performer_id = 1, a_alias = ''Jane Doe, J. Doe / JD''\<rparr>"]
  have "\<exists>s'. migrate jane_and_solo = Some (None, s') \<and>
     map a_alias (filter (\<lambda>x. a_performer_id x = 1) (performer_aliases s')) =
       [''Jane Doe'', ''J. Doe'', ''JD''] \<and>
     (\<forall>x \<in> set (performer_aliases s'). a_performer_id x = 1 \<longrightarrow>
              CHR '','' \<notin> set (a_alias x) \<and> CHR ''/'' \<notin> set (a_alias x))"
    by (simp add: jane_and_solo_def len e)
  then obtain s' where a: "migrate jane_and_solo = Some (None, s')"
    and b: "map a_alias (filter (\<lambda>x. a_performer_id x = 1) (performer_aliases s')) =
       [''Jane Doe'', ''J. Doe'', ''JD'']"
    by (elim exE conjE)
  show ?thesis by (intro exI [of _ s'] conjI a b)
qed

subsection \<open>Running the alias pass on rows it leaves alone\<close>

lemma length_filter_stronger:
  assumes "\<And>x. P x \<Longrightarrow> Q x" and "x \<in> set xs" and "Q x" and "\<not> P x"
  shows "length (filter P xs) < length (filter Q xs)"
proof -
  have "filter P xs = filter P (filter Q xs)"
    using assms(1) by (auto intro: filter_cong)
  moreover from assms(2,3) have "x \<in> set (filter Q xs)" by simp
  then have "length (filter P (filter Q xs)) < length (filter Q xs)"
    using assms(4) by (rule length_filter_less)
  ultimately show ?thesis by simp
qed

lemma migrate_loop_untouched:
  assumes "faults s = None" and "0 \<le> lastID v"
    and "\<forall>r \<in> set (performer_aliases s). 0 < a_performer_id r"
    and "\<forall>r \<in> set (performer_aliases s). length (FieldsFunc (a_alias r) isDelim) < 2"
  shows "\<exists>v'. migrate_loop v s = Some (None, v', s)"
  using assms
proof (induction "length (pending (lastID v) (performer_aliases s))" arbitrary: v rule: less_induct)
  case less
  define T where "T = performer_aliases s"
  define P where "P = pending (lastID v) T"
  define page where "page = take limit P"
  define v1 where "v1 = v\<lparr>lastID := (if page = [] then lastID v else a_performer_id (last page)),
        gotSome := page \<noteq> [], count := count v + length page, fetched := fetched v @ page\<rparr>"
  have sel: "select_aliases (lastID v) s = page"
    using select_aliases_pending [OF less.prems(2,3)] by (simp add: page_def P_def T_def)
  have sub: "set page \<subseteq> set T"
    using pending_sub [of "lastID v" T] set_take_subset [of limit P] by (auto simp: page_def P_def)
  with less.prems(4) have "\<forall>r \<in> set page. length (FieldsFunc (a_alias r) isDelim) < 2"
    by (auto simp: T_def)
  from normalize_rows_noop [OF this] have keep: "s\<lparr>performer_aliases :=
      foldl (\<lambda>t r. normalize_row r t) (performer_aliases s) page\<rparr> = s" by simp
  have w: "withTxn alias_page (v\<lparr>gotSome := False\<rparr>) s = (None, v1, s)"
    by (simp add: withTxn_alias_page_no_faults [OF less.prems(1)] alias_rows_ok [OF less.prems(1)]
        sel v1_def keep)
  show ?case
  proof (cases "P = []")
    case True
    then have "page = []" by (simp add: page_def)
    with w have "migrate_loop v s = Some (None, v1, s)"
      by (subst migrate_loop.simps) (simp add: v1_def)
    then show ?thesis by blast
  next
    case False
    with limit_pos have pne: "page \<noteq> []" by (simp add: page_def)
    with w have step: "migrate_loop v s = migrate_loop v1 s"
      by (subst migrate_loop.simps) (simp add: v1_def)
    have l1: "lastID v1 = a_performer_id (last page)" using pne by (simp add: v1_def)
    from pne have lP: "last page \<in> set P" unfolding page_def using in_set_takeD last_in_set by metis
    with pending_after [of "lastID v" T] have gt: "lastID v < lastID v1"
      by (auto simp: l1 P_def)
    with less.prems(2) have b1: "0 \<le> lastID v1" by simp
    from lP pending_sub [of "lastID v" T] have lT: "last page \<in> set T" by (auto simp: P_def)
    have "length (filter (\<lambda>r. a_performer_id r > lastID v1) T)
        < length (filter (\<lambda>r. a_performer_id r > lastID v) T)"
      using gt by (intro length_filter_stronger [OF _ lT]) (simp_all add: l1)
    then have "length (pending (lastID v1) (performer_aliases s))
        < length (pending (lastID v) (performer_aliases s))"
      by (simp add: pending_def T_def)
    from less.hyps [OF this less.prems(1) b1 less.prems(3,4)] step show ?thesis by simp
  qed
qed

lemma normalize_rows_ids:
  "a_performer_id ` set (foldl (\<lambda>t r. normalize_row r t) t rows)
     \<subseteq> a_performer_id ` set t \<union> a_performer_id ` set rows"
proof (induction rows arbitrary: t)
  case Nil
  then show ?case by simp
next
  case (Cons r rs)
  have "a_performer_id ` set (normalize_row r t) \<subseteq> a_performer_id ` set t \<union> {a_performer_id r}"
    by (auto simp: normalize_row_def)
  with Cons [of "normalize_row r t"] show ?case by auto
qed

text \<open>After the pass over a table with one row per performer, every alias is a single piece.\<close>

lemma normalized_table_single:
  assumes "distinct (map a_performer_id tbl)"
    and "x \<in> set (foldl (\<lambda>t r. normalize_row r t) tbl (sort_key a_performer_id tbl))"
  shows "length (FieldsFunc (a_alias x) isDelim) < 2"
proof -
  let ?S = "sort_key a_performer_id tbl"
  let ?T' = "foldl (\<lambda>t r. normalize_row r t) tbl ?S"
  from assms(2) normalize_rows_ids [of tbl ?S]
  obtain r where r: "r \<in> set tbl" and i: "a_performer_id r = a_performer_id x" by auto
  have d: "distinct (map a_performer_id ?S)" using assms(1) by (simp add: distinct_map_sort_key)
  from r have rS: "r \<in> set ?S" by simp
  from assms(2) i have xin: "x \<in> set (filter (\<lambda>y. a_performer_id y = a_performer_id r) ?T')"
    by simp
  show ?thesis
  proof (cases "length (FieldsFunc (a_alias r) isDelim) < 2")
    case True
    with normalize_rows_same [OF d rS, of tbl] filter_key_distinct [OF assms(1) r]
    have "filter (\<lambda>y. a_performer_id y = a_performer_id r) ?T' = [r]" by simp
    with xin True show ?thesis by simp
  next
    case False
    with normalize_rows_same [OF d rS, of tbl] xin
    have "a_alias x \<in> set (StrAppendUniques [] (map TrimSpace (FieldsFunc (a_alias r) isDelim)))"
      by auto
    then obtain p where p: "p \<in> set (FieldsFunc (a_alias r) isDelim)" and a: "a_alias x = TrimSpace p"
      by (auto simp: set_StrAppendUniques)
    from FieldsFunc_no_sep [of "a_alias r" isDelim] p have "\<forall>c \<in> set p. \<not> isDelim c" by blast
    with set_TrimSpace [of p] a have "\<forall>c \<in> set (a_alias x). \<not> isDelim c" by auto
    then show ?thesis by (rule FieldsFunc_whole)
  qed
qed

text \<open>
  The claim counts the pieces that are not empty after trimming. The code counts the fields
  before it trims: \<open>a, \<close> has two fields, \<open>a\<close> and a blank, so its one piece that is not
  empty after trimming does not make the transform a no-op. The row is deleted and two rows
  are inserted, one of them with the empty alias.
\<close>

theorem blank_piece_counterexample:
  "length (filter (\<lambda>p. p \<noteq> []) (map TrimSpace (FieldsFunc ''a, '' isDelim))) < 2 \<and>
   migratePerformerAliases 1 ''a, '' blank_piece =
     (None, blank_piece\<lparr>performer_aliases :=
               [\<lparr>a_performer_id = 1, a_alias = ''a''\<rparr>, \<lparr>a_performer_id = 1, a_alias = ''''\<rparr>]\<rparr>)"
  by code_simp

text \<open>
  C3, amended. When the raw alias text has fewer than two fields between its delimiters,
  counted before trimming, \<^verbatim>\<open>migratePerformerAliases\<close> returns at once: no call reaches
  the database and the state is the one it was given. So the alias pass over a table in
  which every alias is such a text (positive ids, no driver faults) returns with the table as
  it was; and the table that a pass over one row per performer leaves is of this kind, so a
  second pass changes nothing.
\<close>

theorem single_alias_untouched:
  "(length (FieldsFunc raw isDelim) < 2 \<longrightarrow> migratePerformerAliases i raw s = (None, s)) \<and>
   (faults s = None \<and>
    (\<forall>r \<in> set (performer_aliases s).
        0 < a_performer_id r \<and> length (FieldsFunc (a_alias r) isDelim) < 2) \<longrightarrow>
      migrate s = Some (None, s)) \<and>
   (faults s = None \<and> distinct (map a_performer_id (performer_aliases s)) \<and>
    (\<forall>r \<in> set (performer_aliases s). 0 < a_performer_id r) \<longrightarrow>
      (\<exists>s'. migrate s = Some (None, s') \<and> migrate s' = Some (None, s')))"
proof (intro conjI impI)
  assume "length (FieldsFunc raw isDelim) < 2"
  then show "migratePerformerAliases i raw s = (None, s)"
    by (simp add: migratePerformerAliases_def)
next
  assume h: "faults s = None \<and>
    (\<forall>r \<in> set (performer_aliases s).
        0 < a_performer_id r \<and> length (FieldsFunc (a_alias r) isDelim) < 2)"
  then have "\<exists>v'. migrate_loop \<lparr>lastID = 0, count = 0, gotSome = False, fetched = []\<rparr> s =
      Some (None, v', s)"
    by (intro migrate_loop_untouched) simp_all
  then show "migrate s = Some (None, s)" by (auto simp: migrate_def)
next
  assume h: "faults s = None \<and> distinct (map a_performer_id (performer_aliases s)) \<and>
    (\<forall>r \<in> set (performer_aliases s). 0 < a_performer_id r)"
  let ?S = "sort_key a_performer_id (performer_aliases s)"
  let ?T' = "foldl (\<lambda>t r. normalize_row r t) (performer_aliases s) ?S"
  let ?s' = "s\<lparr>performer_aliases := ?T'\<rparr>"
  from h migrate_loop_distinct [of s] have run: "migrate s = Some (None, ?s')"
    by (simp add: migrate_def)
  from h have pos: "\<forall>r \<in> set ?T'. 0 < a_performer_id r"
    by (intro normalize_rows_positive) simp_all
  from h normalized_table_single [of "performer_aliases s"]
  have single: "\<forall>r \<in> set ?T'. length (FieldsFunc (a_alias r) isDelim) < 2" by blast
  from h have "faults ?s' = None" by simp
  from migrate_loop_untouched [OF this, of "\<lparr>lastID = 0, count = 0, gotSome = False, fetched = []\<rparr>"]
    pos single
  have "migrate ?s' = Some (None, ?s')" by (auto simp: migrate_def)
  with run show "\<exists>s'. migrate s = Some (None, s') \<and> migrate s' = Some (None, s')" by blast
qed

theorem single_alias_untouched_witness:
  "migratePerformerAliases 2 ''Solo'' jane_and_solo = (None, jane_and_solo) \<and>
   (\<exists>s'. migrate jane_and_solo = Some (None, s') \<and> migrate s' = Some (None, s'))"
proof -
  have len: "length (FieldsFunc ''Solo'' isDelim) < 2" by code_simp
  have h: "faults jane_and_solo = None \<and>
      distinct (map a_performer_id (performer_aliases jane_and_solo)) \<and>
      (\<forall>r \<in> set (performer_aliases jane_and_solo). 0 < a_performer_id r)"
    by (simp add: jane_and_solo_def)
  from single_alias_untouched [of "''Solo''" 2 jane_and_solo] len h show ?thesis by simp
qed

subsection \<open>A performer id of 0\<close>

text \<open>
  The page query leaves out its boundary condition when \<^verbatim>\<open>lastID\<close> is 0. A row with
  performer id 0 puts the boundary back to 0: every page fetches it again and the pass never
  returns. This is why the statements about the alias pass ask for positive ids.
\<close>

lemma alias_pass_id_zero_never_returns:
  "migrate_loop \<lparr>lastID = 0, count = 0, gotSome = False, fetched = []\<rparr> zero_id_alias = None"
proof -
  let ?P = "\<lambda>(v :: alias_vars) (s :: sqldb) (r :: error option \<times> alias_vars \<times> sqldb).
      \<not> (lastID v = 0 \<and> s = zero_id_alias)"
  have never: "?P v s r" if "migrate_loop v s = Some r" for v s r
  proof (rule migrate_loop.raw_induct [where P = ?P, OF _ that])
    fix loop v s r
    assume IH: "\<And>v s r. loop v s = Some r \<Longrightarrow> ?P v s r"
      and body: "(case withTxn alias_page (v\<lparr>gotSome := False\<rparr>) s of
          (None, v', s') \<Rightarrow> if \<not> gotSome v' then Some (None, v', s') else loop v' s'
        | (Some e, v', s') \<Rightarrow> Some (Some e, v', s')) = Some r"
    show "?P v s r"
    proof
      assume a: "lastID v = 0 \<and> s = zero_id_alias"
      have nf: "faults zero_id_alias = None" by (simp add: zero_id_alias_def)
      have page: "select_aliases 0 zero_id_alias = [\<lparr>a_performer_id = 0, a_alias = ''x''\<rparr>]"
        using limit_pos by (cases limit) (simp_all add: select_aliases_def zero_id_alias_def)
      have single: "length (FieldsFunc ''x'' isDelim) < 2"
        by (rule FieldsFunc_whole) (simp add: isDelim_def)
      have keep: "zero_id_alias\<lparr>performer_aliases :=
          normalize_row \<lparr>a_performer_id = 0, a_alias = ''x''\<rparr> (performer_aliases zero_id_alias)\<rparr> =
          zero_id_alias"
        using single by (simp add: normalize_row_def)
      let ?v1 = "v\<lparr>lastID := 0, gotSome := True, count := count v + 1,
          fetched := fetched v @ [\<lparr>a_performer_id = 0, a_alias = ''x''\<rparr>]\<rparr>"
      from a have w: "withTxn alias_page (v\<lparr>gotSome := False\<rparr>) s = (None, ?v1, zero_id_alias)"
        by (simp add: withTxn_alias_page_no_faults [OF nf] alias_rows_ok [OF nf] page keep)
      with body have "loop ?v1 zero_id_alias = Some r" by simp
      from IH [OF this] show False by simp
    qed
  qed
  show ?thesis
  proof (cases "migrate_loop \<lparr>lastID = 0, count = 0, gotSome = False, fetched = []\<rparr> zero_id_alias")
    case None
    then show ?thesis .
  next
    case (Some r)
    from never [OF this] show ?thesis by simp
  qed
qed

subsection \<open>Parsing what \<^verbatim>\<open>Itoa\<close> printed\<close>

lemma parse_digits_append:
  "parse_digits a (xs @ ys) =
     (case parse_digits a xs of Inl e \<Rightarrow> Inl e | Inr v \<Rightarrow> parse_digits v ys)"
  by (induction xs arbitrary: a) simp_all

lemma digit_char:
  assumes "m < 10"
  shows "is_digit (''0123456789'' ! m) \<and> digit_val (''0123456789'' ! m) = int m"
proof -
  from assms have "m = 0 \<or> m = 1 \<or> m = 2 \<or> m = 3 \<or> m = 4 \<or> m = 5 \<or> m = 6
      \<or> m = 7 \<or> m = 8 \<or> m = 9"
    by arith
  then show ?thesis
    by (elim disjE) (simp_all add: is_digit_def digit_val_def)
qed

lemma digits10_unfold:
  "n < 10 \<Longrightarrow> digits10 n = [''0123456789'' ! n]"
  "\<not> n < 10 \<Longrightarrow> digits10 n = digits10 (n div 10) @ [''0123456789'' ! (n mod 10)]"
  using digits10.simps [of n] by simp_all

lemma digits10_parse:
  assumes "int m \<le> maxUint64"
  shows "parse_digits 0 (digits10 m) = Inr (int m)"
  using assms
proof (induction m rule: digits10.induct)
  case (1 n)
  show ?case
  proof (cases "n < 10")
    case True
    with digit_char [OF True] show ?thesis
      by (simp add: digits10_unfold maxUint64_def)
  next
    case False
    have lt: "n mod 10 < 10" by simp
    have "n div 10 \<le> n" by simp
    with "1.prems" have small: "int (n div 10) \<le> maxUint64" by linarith
    from "1.prems" have "n \<le> 18446744073709551615" by (simp add: maxUint64_def)
    then have "n div 10 \<le> 18446744073709551615 div 10" by (rule div_le_mono)
    then have cut: "\<not> int (n div 10) \<ge> maxUint64 div 10 + 1"
      by (simp add: maxUint64_def)
    have whole: "int (n div 10) * 10 + int (n mod 10) = int n"
      by (simp add: of_nat_div of_nat_mod)
    from digit_char [OF lt] have d: "is_digit (''0123456789'' ! (n mod 10))"
      "digit_val (''0123456789'' ! (n mod 10)) = int (n mod 10)" by simp_all
    have "parse_digits 0 (digits10 n) =
        parse_digits (int (n div 10)) [''0123456789'' ! (n mod 10)]"
      by (simp add: digits10_unfold(2) [OF False] parse_digits_append "1.IH" [OF False small])
    also have "\<dots> = Inr (int n)"
      using d cut "1.prems" by (simp add: whole)
    finally show ?thesis .
  qed
qed

lemma digits10_digits: "digits10 m \<noteq> [] \<and> (\<forall>c \<in> set (digits10 m). is_digit c)"
proof (induction m rule: digits10.induct)
  case (1 n)
  show ?case
  proof (cases "n < 10")
    case True
    with digit_char [OF True] show ?thesis by (simp add: digits10_unfold)
  next
    case False
    have "n mod 10 < 10" by simp
    from "1.IH" [OF False] digit_char [OF this] show ?thesis
      by (simp add: digits10_unfold(2) [OF False])
  qed
qed

lemma is_digit_no_sign: "is_digit c \<Longrightarrow> c \<noteq> CHR ''+'' \<and> c \<noteq> CHR ''-''"
  by (auto simp: is_digit_def)

text \<open>\<^verbatim>\<open>Atoi\<close> reads back every 64-bit integer that \<^verbatim>\<open>Itoa\<close> printed.\<close>

lemma Atoi_Itoa:
  assumes "- 9223372036854775808 \<le> n" and "n < 9223372036854775808"
  shows "Atoi (Itoa n) = Inr n"
proof (cases "n < 0")
  case False
  let ?ds = "digits10 (nat n)"
  from digits10_digits [of "nat n"] obtain c cs where ds: "?ds = c # cs" and "is_digit c"
    by (cases ?ds) auto
  from is_digit_no_sign [OF this(2)] have sign: "c \<noteq> CHR ''+''" "c \<noteq> CHR ''-''" by simp_all
  from False assms have "int (nat n) \<le> maxUint64" by (simp add: maxUint64_def)
  from digits10_parse [OF this] False have p: "parse_digits 0 (c # cs) = Inr n" by (simp add: ds)
  from False have "Itoa n = c # cs" by (simp add: Itoa_def ds)
  with sign p assms False show ?thesis by (simp add: Atoi_def Let_def)
next
  case True
  let ?ds = "digits10 (nat (- n))"
  from digits10_digits [of "nat (- n)"] have ne: "?ds \<noteq> []" by simp
  from True assms have "int (nat (- n)) \<le> maxUint64" by (simp add: maxUint64_def)
  from digits10_parse [OF this] True have p: "parse_digits 0 ?ds = Inr (- n)" by simp
  from True have "Itoa n = CHR ''-'' # ?ds" by (simp add: Itoa_def)
  with ne p assms True show ?thesis by (simp add: Atoi_def Let_def)
qed

lemma add1_int64_range:
  "- 9223372036854775808 \<le> add1_int64 n \<and> add1_int64 n < 9223372036854775808"
proof -
  have "0 \<le> (n + 1 + 9223372036854775808) mod 18446744073709551616"
    and "(n + 1 + 9223372036854775808) mod 18446744073709551616 < 18446744073709551616"
    by simp_all
  then show ?thesis unfolding add1_int64_def by linarith
qed

lemma Atoi_new_disambiguation:
  "Atoi (Itoa 1) = Inr 1" "Atoi (Itoa (add1_int64 k)) = Inr (add1_int64 k)"
  using add1_int64_range [of k] by (simp_all add: Atoi_Itoa)

subsection \<open>Pages of the duplicate pass that cannot fail\<close>

lemma apply_update:
  "apply_stmt (UpdateDisambiguation d i) s = s\<lparr>performers := set_disambiguation d i (performers s)\<rparr>"
  by (simp add: set_disambiguation_def)

lemma select_disambiguation_head:
  assumes "p \<in> set (performers s)" and "p_name p = name"
  shows "\<exists>x. select_disambiguation name s = [x] \<and>
           (\<exists>q \<in> set (performers s). p_name q = name \<and> p_disambiguation q = x)"
proof -
  let ?xs = "map p_disambiguation (filter (\<lambda>p. p_name p = name) (performers s))"
  from assms have "?xs \<noteq> []" by (auto simp: filter_empty_conv)
  then have ne: "rev (sort ?xs) \<noteq> []" by (metis length_0_conv length_rev length_sort)
  then obtain x xs where r: "rev (sort ?xs) = x # xs" by (cases "rev (sort ?xs)") auto
  then have "x \<in> set (rev (sort ?xs))" by simp
  then have "x \<in> set ?xs" by simp
  then obtain q where "q \<in> set (performers s)" "p_name q = name" "p_disambiguation q = x"
    by auto
  moreover from r have "select_disambiguation name s = [x]"
    by (simp add: select_disambiguation_def)
  ultimately show ?thesis by blast
qed

lemma all_numeric_set_disambiguation:
  assumes "all_numeric ps" and "Atoi d = Inr k"
  shows "all_numeric (set_disambiguation d i ps)"
  using assms unfolding all_numeric_def set_disambiguation_def
  by (induction ps) auto

lemma names_set_disambiguation:
  "(\<exists>p \<in> set (set_disambiguation d i ps). p_name p = n) = (\<exists>p \<in> set ps. p_name p = n)"
  by (induction ps) (auto simp: set_disambiguation_def)

text \<open>
  Without a driver fault and on a table whose disambiguations all parse, a row whose name is
  in the table always gets its disambiguation, and that one parses again.
\<close>

lemma migrateDuplicatePerformer_succeeds:
  assumes "faults s = None" and "all_numeric (performers s)"
    and "\<exists>p \<in> set (performers s). p_name p = name"
  shows "\<exists>d k. migrateDuplicatePerformer i name s =
             (None, s\<lparr>performers := set_disambiguation d i (performers s)\<rparr>) \<and>
           Atoi d = Inr k"
proof -
  from assms(3) obtain p where "p \<in> set (performers s)" "p_name p = name" by blast
  from select_disambiguation_head [OF this] obtain x q
    where sel: "select_disambiguation name s = [x]"
      and q: "q \<in> set (performers s)" "p_disambiguation q = x" by blast
  show ?thesis
  proof (cases x)
    case None
    with sel have "migrateDuplicatePerformer i name s =
        (None, s\<lparr>performers := set_disambiguation (Itoa 1) i (performers s)\<rparr>)"
      by (simp add: migrateDuplicatePerformer_ok [OF assms(1)] set_disambiguation_def)
    with Atoi_new_disambiguation(1) show ?thesis by blast
  next
    case (Some str)
    with q assms(2) obtain n where n: "Atoi str = Inr n" by (auto simp: all_numeric_def)
    with sel Some have "migrateDuplicatePerformer i name s =
        (None, s\<lparr>performers := set_disambiguation (Itoa (add1_int64 n)) i (performers s)\<rparr>)"
      by (simp add: migrateDuplicatePerformer_ok [OF assms(1)] set_disambiguation_def)
    with Atoi_new_disambiguation(2) [of n] show ?thesis by blast
  qed
qed

lemma dup_rows_succeeds:
  assumes "faults s = None" and "all_numeric (performers s)"
    and "\<forall>r \<in> set rows. \<exists>p \<in> set (performers s). p_name p = snd r"
  shows "\<exists>v' s'. dup_rows rows v s = (None, v', s') \<and> faults s' = None \<and>
           all_numeric (performers s')"
  using assms
proof (induction rows arbitrary: v s)
  case Nil
  then show ?case by (simp add: db_call_ok)
next
  case (Cons r rs)
  from Cons.prems(3) have "\<exists>p \<in> set (performers s). p_name p = snd r" by simp
  from migrateDuplicatePerformer_succeeds [OF Cons.prems(1,2) this, of "fst r"] obtain d k
    where m: "migrateDuplicatePerformer (fst r) (snd r) s =
        (None, s\<lparr>performers := set_disambiguation d (fst r) (performers s)\<rparr>)"
      and a: "Atoi d = Inr k" by blast
  let ?s = "s\<lparr>performers := set_disambiguation d (fst r) (performers s)\<rparr>"
  let ?v = "v\<lparr>d_gotSome := True, d_count := d_count v + 1, d_processed := d_processed v @ [r]\<rparr>"
  have f: "faults ?s = None" using Cons.prems(1) by simp
  have n: "all_numeric (performers ?s)"
    using all_numeric_set_disambiguation [OF Cons.prems(2) a] by simp
  have w: "\<forall>x \<in> set rs. \<exists>p \<in> set (performers ?s). p_name p = snd x"
    using Cons.prems(3) by (simp add: names_set_disambiguation)
  from Cons.IH [OF f n w, of ?v] obtain v' s' where "dup_rows rs ?v ?s = (None, v', s')"
    and "faults s' = None" and "all_numeric (performers s')" by blast
  with m Cons.prems(1) show ?case by (simp add: db_call_ok Let_def)
qed

lemma dup_page_succeeds:
  assumes "faults s = None" and "all_numeric (performers s)"
  shows "\<exists>v' s'. withTxn dup_page v s = (None, v', s') \<and> faults s' = None \<and>
           all_numeric (performers s') \<and>
           d_processed v' = d_processed v @ select_duplicates s"
proof -
  have "\<forall>r \<in> set (select_duplicates s). \<exists>p \<in> set (performers s). p_name p = snd r"
  proof
    fix r assume "r \<in> set (select_duplicates s)"
    from select_duplicates_sub [OF this] obtain p where "p \<in> set (duplicates (performers s))"
      and "r = (p_id p, p_name p)" by blast
    then show "\<exists>p \<in> set (performers s). p_name p = snd r" by (auto simp: duplicates_def)
  qed
  from dup_rows_succeeds [OF assms this, of v] obtain v' s'
    where r: "dup_rows (select_duplicates s) v s = (None, v', s')"
      and "faults s' = None" and "all_numeric (performers s')" by blast
  with dup_rows_vars [OF r] show ?thesis
    by (simp add: withTxn_dup_page_no_faults [OF assms(1)])
qed

lemma select_duplicates_empty: "(select_duplicates s = []) = (duplicates (performers s) = [])"
proof -
  have "(take limit xs = []) = (xs = [])" for xs :: "performer list"
    using limit_pos by (cases xs) auto
  moreover have "(sort_key p_id xs = []) = (xs = [])" for xs :: "performer list"
    by (metis length_0_conv length_sort)
  ultimately show ?thesis by (simp add: select_duplicates_eq)
qed

lemma dup_loop_succeeds:
  assumes "faults s = None" and "all_numeric (performers s)"
  shows "\<exists>v' s'. dup_loop v s = Some (None, v', s') \<and> select_duplicates s' = []"
  using assms
proof (induction "length (duplicates (performers s))" arbitrary: v s rule: less_induct)
  case less
  from dup_page_succeeds [OF less.prems, of "v\<lparr>d_gotSome := False\<rparr>"] obtain v1 s1
    where w: "withTxn dup_page (v\<lparr>d_gotSome := False\<rparr>) s = (None, v1, s1)"
      and f1: "faults s1 = None" and n1: "all_numeric (performers s1)" by blast
  show ?case
  proof (cases "d_gotSome v1")
    case True
    from dup_page_shrinks [OF w True]
    have "length (duplicates (performers s1)) < length (duplicates (performers s))" .
    from less.hyps [OF this f1 n1, of v1] obtain v' s'
      where "dup_loop v1 s1 = Some (None, v', s')" and "select_duplicates s' = []" by blast
    moreover from w True have "dup_loop v s = dup_loop v1 s1"
      by (subst dup_loop.simps) simp
    ultimately show ?thesis by simp
  next
    case False
    from w have r: "dup_rows (select_duplicates s) (v\<lparr>d_gotSome := False\<rparr>) s = (None, v1, s1)"
      by (simp add: withTxn_dup_page_no_faults [OF less.prems(1)])
    from dup_rows_vars [OF r] False have e: "select_duplicates s = []" by simp
    with r less.prems(1) have "s1 = s" by (simp add: db_call_ok)
    moreover from w False have "dup_loop v s = Some (None, v1, s1)"
      by (subst dup_loop.simps) simp
    ultimately show ?thesis using e by simp
  qed
qed

subsection \<open>Termination of the duplicate pass\<close>

text \<open>
  The claim has every iteration either fetch no rows or give every row it processes a
  disambiguation. An iteration can also end in an error: the page of \<open>mixed_page\<close> fetches
  performers 2 and 4 and fails on performer 4, which is processed and is left without a
  disambiguation.
\<close>

theorem page_leaves_row_unassigned_counterexample:
  "select_duplicates mixed_page = [(2, ''A''), (4, ''B'')] \<and>
   withTxn dup_page (\<lparr>d_count = 0, d_gotSome = False, d_processed = []\<rparr>\<lparr>d_gotSome := False\<rparr>)
     mixed_page =
     (Some (NumError ''Atoi'' ''x'' ErrSyntax),
      \<lparr>d_count = 2, d_gotSome = True, d_processed = [(2, ''A''), (4, ''B'')]\<rparr>,
      mixed_page_aborted) \<and>
   map p_disambiguation (filter (\<lambda>p. p_id p = 4) (performers mixed_page_aborted)) = [None]"
  by code_simp

text \<open>
  C10, amended. The duplicate pass returns on every table and under every fault schedule,
  although its page query carries no boundary. One iteration of its loop, from any state,
  ends in one of three ways: the page returns an error and the loop returns it; the page
  fetched no row and the loop returns; or every row of the page now has a disambiguation,
  the rows that match the page query are fewer than before, and the loop goes on. When the
  driver refuses nothing and every disambiguation in the table is a text that
  \<^verbatim>\<open>Atoi\<close> accepts (as when none is set yet), the first way is excluded: the iteration
  returns without an error, in a state of the same kind, having either fetched no row or
  processed the whole page, assigned every row of it and shrunk the set of matching rows;
  and the pass returns without an error, with no row left that matches the page query.
\<close>

theorem duplicate_pass_terminates:
  "(\<exists>r. migrateDuplicatePerformers s = Some r) \<and>
   (\<forall>v e v' s'. withTxn dup_page (v\<lparr>d_gotSome := False\<rparr>) s = (e, v', s') \<longrightarrow>
      (e \<noteq> None \<and> dup_loop v s = Some (e, v', s')) \<or>
      (e = None \<and> \<not> d_gotSome v' \<and> select_duplicates s = [] \<and>
         dup_loop v s = Some (None, v', s')) \<or>
      (e = None \<and> d_gotSome v' \<and> select_duplicates s \<noteq> [] \<and>
         (\<forall>r \<in> set (select_duplicates s). \<forall>p \<in> set (performers s').
             p_id p = fst r \<longrightarrow> p_disambiguation p \<noteq> None) \<and>
         length (filter (is_duplicate s') (performers s'))
           < length (filter (is_duplicate s) (performers s)) \<and>
         dup_loop v s = dup_loop v' s')) \<and>
   (faults s = None \<and>
    (\<forall>p \<in> set (performers s). \<forall>d. p_disambiguation p = Some d \<longrightarrow> (\<exists>k. Atoi d = Inr k)) \<longrightarrow>
      (\<forall>v. \<exists>v' s'. withTxn dup_page (v\<lparr>d_gotSome := False\<rparr>) s = (None, v', s') \<and>
         faults s' = None \<and>
         (\<forall>p \<in> set (performers s'). \<forall>d. p_disambiguation p = Some d \<longrightarrow>
            (\<exists>k. Atoi d = Inr k)) \<and>
         ((select_duplicates s = [] \<and> dup_loop v s = Some (None, v', s')) \<or>
          (select_duplicates s \<noteq> [] \<and>
           d_processed v' = d_processed v @ select_duplicates s \<and>
           (\<forall>r \<in> set (select_duplicates s). \<forall>p \<in> set (performers s').
               p_id p = fst r \<longrightarrow> p_disambiguation p \<noteq> None) \<and>
           length (filter (is_duplicate s') (performers s'))
             < length (filter (is_duplicate s) (performers s)) \<and>
           dup_loop v s = dup_loop v' s'))) \<and>
      (\<exists>s'. migrateDuplicatePerformers s = Some (None, s') \<and> select_duplicates s' = []))"
proof -
  have returns: "\<exists>r. migrateDuplicatePerformers s = Some r"
    using dup_loop_returns [of "\<lparr>d_count = 0, d_gotSome = False, d_processed = []\<rparr>" s]
    by (auto simp: migrateDuplicatePerformers_def)
  have iter: "(e \<noteq> None \<and> dup_loop v s = Some (e, v', s')) \<or>
      (e = None \<and> \<not> d_gotSome v' \<and> select_duplicates s = [] \<and>
         dup_loop v s = Some (None, v', s')) \<or>
      (e = None \<and> d_gotSome v' \<and> select_duplicates s \<noteq> [] \<and>
         (\<forall>r \<in> set (select_duplicates s). \<forall>p \<in> set (performers s').
             p_id p = fst r \<longrightarrow> p_disambiguation p \<noteq> None) \<and>
         length (filter (is_duplicate s') (performers s'))
           < length (filter (is_duplicate s) (performers s)) \<and>
         dup_loop v s = dup_loop v' s')"
    if w: "withTxn dup_page (v\<lparr>d_gotSome := False\<rparr>) s = (e, v', s')" for v e v' s'
  proof (cases e)
    case (Some a)
    with w have "dup_loop v s = Some (e, v', s')" by (subst dup_loop.simps) simp
    with Some show ?thesis by simp
  next
    case None
    from withTxn_dup_page_ok [OF w [unfolded None]] obtain s0 s1
      where rows: "dup_rows (select_duplicates s) (v\<lparr>d_gotSome := False\<rparr>) s0 = (None, v', s1)"
        and p1: "performers s' = performers s1" by blast
    from dup_rows_vars [OF rows] have g: "d_gotSome v' = (select_duplicates s \<noteq> [])" by simp
    show ?thesis
    proof (cases "d_gotSome v'")
      case False
      with None w have "dup_loop v s = Some (None, v', s')" by (subst dup_loop.simps) simp
      with None False g show ?thesis by simp
    next
      case True
      with None w have l: "dup_loop v s = dup_loop v' s'" by (subst dup_loop.simps) simp
      have a: "\<forall>r \<in> set (select_duplicates s). \<forall>p \<in> set (performers s').
             p_id p = fst r \<longrightarrow> p_disambiguation p \<noteq> None"
        using dup_rows_assigns [OF rows] p1 by simp
      from dup_page_shrinks [OF w [unfolded None] True]
      have "length (filter (is_duplicate s') (performers s'))
           < length (filter (is_duplicate s) (performers s))"
        by (simp add: duplicates_performers)
      with None True g l a show ?thesis by simp
    qed
  qed
  have good: "(\<forall>v. \<exists>v' s'. withTxn dup_page (v\<lparr>d_gotSome := False\<rparr>) s = (None, v', s') \<and>
         faults s' = None \<and>
         (\<forall>p \<in> set (performers s'). \<forall>d. p_disambiguation p = Some d \<longrightarrow>
            (\<exists>k. Atoi d = Inr k)) \<and>
         ((select_duplicates s = [] \<and> dup_loop v s = Some (None, v', s')) \<or>
          (select_duplicates s \<noteq> [] \<and>
           d_processed v' = d_processed v @ select_duplicates s \<and>
           (\<forall>r \<in> set (select_duplicates s). \<forall>p \<in> set (performers s').
               p_id p = fst r \<longrightarrow> p_disambiguation p \<noteq> None) \<and>
           length (filter (is_duplicate s') (performers s'))
             < length (filter (is_duplicate s) (performers s)) \<and>
           dup_loop v s = dup_loop v' s'))) \<and>
      (\<exists>s'. migrateDuplicatePerformers s = Some (None, s') \<and> select_duplicates s' = [])"
    if h: "faults s = None \<and>
      (\<forall>p \<in> set (performers s). \<forall>d. p_disambiguation p = Some d \<longrightarrow> (\<exists>k. Atoi d = Inr k))"
  proof (intro conjI allI)
    from h have nf: "faults s = None" and num: "all_numeric (performers s)"
      by (simp_all add: all_numeric_def)
    from dup_loop_succeeds [OF nf num, of "\<lparr>d_count = 0, d_gotSome = False, d_processed = []\<rparr>"]
    show "\<exists>s'. migrateDuplicatePerformers s = Some (None, s') \<and> select_duplicates s' = []"
      by (auto simp: migrateDuplicatePerformers_def)
    fix v
    from dup_page_succeeds [OF nf num, of "v\<lparr>d_gotSome := False\<rparr>"] obtain v' s'
      where w: "withTxn dup_page (v\<lparr>d_gotSome := False\<rparr>) s = (None, v', s')"
        and f: "faults s' = None" and n: "all_numeric (performers s')"
        and pr: "d_processed v' = d_processed v @ select_duplicates s" by auto
    from n have n': "\<forall>p \<in> set (performers s'). \<forall>d. p_disambiguation p = Some d \<longrightarrow>
            (\<exists>k. Atoi d = Inr k)"
      by (simp add: all_numeric_def)
    from iter [OF w]
    have "(select_duplicates s = [] \<and> dup_loop v s = Some (None, v', s')) \<or>
          (select_duplicates s \<noteq> [] \<and>
           (\<forall>r \<in> set (select_duplicates s). \<forall>p \<in> set (performers s').
               p_id p = fst r \<longrightarrow> p_disambiguation p \<noteq> None) \<and>
           length (filter (is_duplicate s') (performers s'))
             < length (filter (is_duplicate s) (performers s)) \<and>
           dup_loop v s = dup_loop v' s')"
      by (elim disjE conjE) simp_all
    with w f n' pr
    show "\<exists>v' s'. withTxn dup_page (v\<lparr>d_gotSome := False\<rparr>) s = (None, v', s') \<and>
         faults s' = None \<and>
         (\<forall>p \<in> set (performers s'). \<forall>d. p_disambiguation p = Some d \<longrightarrow>
            (\<exists>k. Atoi d = Inr k)) \<and>
         ((select_duplicates s = [] \<and> dup_loop v s = Some (None, v', s')) \<or>
          (select_duplicates s \<noteq> [] \<and>
           d_processed v' = d_processed v @ select_duplicates s \<and>
           (\<forall>r \<in> set (select_duplicates s). \<forall>p \<in> set (performers s').
               p_id p = fst r \<longrightarrow> p_disambiguation p \<noteq> None) \<and>
           length (filter (is_duplicate s') (performers s'))
             < length (filter (is_duplicate s) (performers s)) \<and>
           dup_loop v s = dup_loop v' s'))"
      by (intro exI [of _ v'] exI [of _ s']) simp
  qed
  from returns iter good show ?thesis by blast
qed

theorem duplicate_pass_terminates_witness:
  "(\<exists>s'. migrateDuplicatePerformers three_alices = Some (None, s') \<and> select_duplicates s' = []) \<and>
   (\<exists>v' s'. withTxn dup_page (\<lparr>d_count = 0, d_gotSome = False, d_processed = []\<rparr>\<lparr>d_gotSome := False\<rparr>)
        three_alices = (None, v', s') \<and>
      faults s' = None \<and>
      d_processed v' = [(2, ''Alice''), (3, ''Alice'')] \<and>
      length (filter (is_duplicate s') (performers s'))
        < length (filter (is_duplicate three_alices) (performers three_alices)) \<and>
      dup_loop \<lparr>d_count = 0, d_gotSome = False, d_processed = []\<rparr> three_alices = dup_loop v' s')"
proof -
  have h: "faults three_alices = None \<and>
    (\<forall>p \<in> set (performers three_alices). \<forall>d. p_disambiguation p = Some d \<longrightarrow>
       (\<exists>k. Atoi d = Inr k))"
    by (simp add: three_alices_def)
  have sd: "select_duplicates three_alices = [(2, ''Alice''), (3, ''Alice'')]"
    by code_simp
  note t = duplicate_pass_terminates [of three_alices, THEN conjunct2, THEN conjunct2, THEN mp, OF h]
  from t have b: "\<exists>s'. migrateDuplicatePerformers three_alices = Some (None, s') \<and>
      select_duplicates s' = []"
    by (rule conjunct2)
  from t [THEN conjunct1, THEN spec, of "\<lparr>d_count = 0, d_gotSome = False, d_processed = []\<rparr>"]
  obtain v' s'
    where w: "withTxn dup_page (\<lparr>d_count = 0, d_gotSome = False, d_processed = []\<rparr>\<lparr>d_gotSome := False\<rparr>)
        three_alices = (None, v', s')"
      and f: "faults s' = None"
      and d: "(select_duplicates three_alices = [] \<and>
            dup_loop \<lparr>d_count = 0, d_gotSome = False, d_processed = []\<rparr> three_alices
              = Some (None, v', s')) \<or>
          (select_duplicates three_alices \<noteq> [] \<and>
           d_processed v' = d_processed \<lparr>d_count = 0, d_gotSome = False, d_processed = []\<rparr>
             @ select_duplicates three_alices \<and>
           (\<forall>r \<in> set (select_duplicates three_alices). \<forall>p \<in> set (performers s').
               p_id p = fst r \<longrightarrow> p_disambiguation p \<noteq> None) \<and>
           length (filter (is_duplicate s') (performers s'))
             < length (filter (is_duplicate three_alices) (performers three_alices)) \<and>
           dup_loop \<lparr>d_count = 0, d_gotSome = False, d_processed = []\<rparr> three_alices
             = dup_loop v' s')"
    by blast
  from d sd have p: "d_processed v' = [(2, ''Alice''), (3, ''Alice'')]"
    and l: "length (filter (is_duplicate s') (performers s'))
        < length (filter (is_duplicate three_alices) (performers three_alices))"
    and c: "dup_loop \<lparr>d_count = 0, d_gotSome = False, d_processed = []\<rparr> three_alices
        = dup_loop v' s'"
    by simp_all
  show ?thesis
    by (intro conjI b exI [of _ v'] exI [of _ s'] w f p l c)
qed

end
